theory Spec2Isabelle
  imports Complex_Main "HOL-Library.AList"
begin

chapter \<open>The embedding\<close>

section \<open>JavaScript values and objects\<close>

text \<open>
  State values are JSON-serialisable data. An object is the list of its own properties in the
  order in which JavaScript enumerates them: the keys that are array indices first, in
  ascending numeric order, then the other keys in the order of their creation. \<open>map_of\<close>
  reads a property (\<open>None\<close> is \<open>undefined\<close>). The code compares values through
  \<open>JSON.stringify\<close>, which is injective on such data (property order included), so value
  equality in HOL stands for equality of the serialisations.
\<close>

type_synonym key = string

type_synonym 'v obj = "(key \<times> 'v) list"

datatype json = JNull | JBool bool | JNum int | JStr string | JArr "json list" | JObj "(string \<times> json) list"

text \<open>\<open>Object.keys\<close>.\<close>

definition keys :: "'v obj \<Rightarrow> key list" where
  "keys a = map fst a"

text \<open>
  A key is an array index when it is the canonical decimal numeral of an integer from 0 to
  \<open>2\<^sup>3\<^sup>2 - 2\<close>: digits only, and no leading zero except for \<open>0\<close> itself.
\<close>

definition digits :: "(char \<times> nat) list" where
  "digits = [(CHR ''0'', 0), (CHR ''1'', 1), (CHR ''2'', 2), (CHR ''3'', 3), (CHR ''4'', 4),
             (CHR ''5'', 5), (CHR ''6'', 6), (CHR ''7'', 7), (CHR ''8'', 8), (CHR ''9'', 9)]"

fun decimal :: "string \<Rightarrow> nat \<Rightarrow> nat option" where
  "decimal [] n = Some n"
| "decimal (c # cs) n = (case map_of digits c of
                           None \<Rightarrow> None
                         | Some d \<Rightarrow> decimal cs (10 * n + d))"

definition arrayIndex :: "key \<Rightarrow> nat option" where
  "arrayIndex k =
     (case k of
        [] \<Rightarrow> None
      | c # cs \<Rightarrow>
          if c = CHR ''0'' \<and> cs \<noteq> [] then None
          else (case decimal k 0 of
                  None \<Rightarrow> None
                | Some n \<Rightarrow> if n < 2 ^ 32 - 1 then Some n else None))"

text \<open>
  Creating the array-index property \<open>n\<close>: it goes behind the array indices below \<open>n\<close>
  and before every other property.
\<close>

fun insertIndexed :: "nat \<Rightarrow> key \<times> 'v \<Rightarrow> 'v obj \<Rightarrow> 'v obj" where
  "insertIndexed n p [] = [p]"
| "insertIndexed n p (q # qs) =
     (case arrayIndex (fst q) of
        None \<Rightarrow> p # q # qs
      | Some m \<Rightarrow> if m < n then q # insertIndexed n p qs else p # q # qs)"

text \<open>
  The assignment \<open>a[k] = v\<close>. An existing property keeps its position; a new one is created,
  at the end unless its key is an array index. (\<open>AList.update\<close> replaces the value of a
  key that is present and appends a key that is absent.)
\<close>

definition assign :: "key \<Rightarrow> 'v \<Rightarrow> 'v obj \<Rightarrow> 'v obj" where
  "assign k v a =
     (case arrayIndex k of
        None \<Rightarrow> AList.update k v a
      | Some n \<Rightarrow> if k \<in> set (keys a) then AList.update k v a else insertIndexed n (k, v) a)"

text \<open>
  Object spread \<open>{...a, ...b}\<close>: the properties of \<open>b\<close> are assigned onto a copy of
  \<open>a\<close> one after the other, in the order of \<open>b\<close>.
\<close>

definition spread :: "'v obj \<Rightarrow> 'v obj \<Rightarrow> 'v obj" where
  "spread a b = fold (\<lambda>(k, v). assign k v) b a"

section \<open>Insertion-ordered sets and their live iteration\<close>

text \<open>
  A JavaScript \<open>Set\<close> is its list of entries in insertion order. \<open>delete\<close> empties the
  entry in place (\<open>None\<close>), \<open>add\<close> appends unless the value is present, and
  \<open>[...set]\<close> lists the values that are left.
\<close>

type_synonym 'a jsset = "'a option list"

definition set_has :: "'a \<Rightarrow> 'a jsset \<Rightarrow> bool" where
  "set_has x s = (Some x \<in> set s)"

definition set_add :: "'a \<Rightarrow> 'a jsset \<Rightarrow> 'a jsset" where
  "set_add x s = (if Some x \<in> set s then s else s @ [Some x])"

definition set_delete :: "'a \<Rightarrow> 'a jsset \<Rightarrow> 'a jsset" where
  "set_delete x s = map (\<lambda>e. if e = Some x then None else e) s"

definition set_values :: "'a jsset \<Rightarrow> 'a list" where
  "set_values s = List.map_filter (\<lambda>e. e) s"

text \<open>
  \<open>Set.prototype.forEach\<close> walks the entries of the live set by index: an entry emptied
  before the walk reaches it is skipped, an entry appended during the walk is visited.
  \<open>entries\<close> reads the set out of the current world \<open>w\<close>, \<open>visit\<close> runs the
  function passed to \<open>forEach\<close> on one value and tells whether an exception left it.
  The result is the flag "an exception ended the walk", the values visited, and the final
  world. A walk that is extended forever by its own callbacks has no result (\<open>None\<close>).
\<close>

partial_function (option) forEach ::
  "('w \<Rightarrow> 'a jsset) \<Rightarrow> ('a \<Rightarrow> 'w \<Rightarrow> bool \<times> 'w) \<Rightarrow> nat \<Rightarrow> 'a list \<Rightarrow> 'w
     \<Rightarrow> (bool \<times> 'a list \<times> 'w) option" where
  "forEach entries visit i visited w =
     (if i < length (entries w) then
        (case entries w ! i of
           None \<Rightarrow> forEach entries visit (Suc i) visited w
         | Some x \<Rightarrow>
             (case visit x w of
                (threw, w') \<Rightarrow>
                  if threw then Some (True, visited @ [x], w')
                  else forEach entries visit (Suc i) (visited @ [x]) w'))
      else Some (False, visited, w))"

section \<open>Callbacks\<close>

text \<open>
  Callbacks are JavaScript functions, compared by identity; \<open>cbid\<close> is that identity.
  What a callback does when called with an argument is given by an environment: from the
  whole state of the component (the world) it yields the state it leaves behind, which covers
  every re-entrant use of the component's interface, and whether it threw.

  Functions keep their names from the sources. Where several components have an operation of
  the same name (\<open>notify\<close>, \<open>subscribe\<close>, \<open>get\<close>, \<open>set\<close>, \<open>patch\<close>, ...),
  the name carries the component: \<open>mq_\<close> for the modal queue, \<open>ss_\<close> for the scoped
  store, \<open>mw_\<close> for the middleware store and \<open>core_\<close> for the Store Core.
\<close>

type_synonym cbid = nat

type_synonym ('a, 'w) callbacks = "cbid \<Rightarrow> 'a \<Rightarrow> 'w \<Rightarrow> bool \<times> 'w"

text \<open>A quiet environment may throw but leaves the world as it is.\<close>

definition quiet :: "('a, 'w) callbacks \<Rightarrow> bool" where
  "quiet env = (\<forall>c a w. snd (env c a w) = w)"

definition idle :: "('a, 'w) callbacks" where
  "idle cb a w = (False, w)"

definition firstThrows :: "('a, 'w) callbacks" where
  "firstThrows cb a w = (cb = 1, w)"

text \<open>
  What the callbacks do to one variable of the world, as the theorems need it: callback
  \<open>cb\<close> leaves the variable alone when every call of it ends with the value it began with;
  it deletes a value from a subscriber set, or adds one, when every call of it has that
  effect on the set; the callbacks of an environment return when no call ends in an
  exception.
\<close>

definition leaves :: "('w \<Rightarrow> 'b) \<Rightarrow> ('a, 'w) callbacks \<Rightarrow> cbid \<Rightarrow> bool" where
  "leaves var env cb = (\<forall>a w. var (snd (env cb a w)) = var w)"

definition returns :: "('a, 'w) callbacks \<Rightarrow> bool" where
  "returns env = (\<forall>cb a w. \<not> fst (env cb a w))"

definition deletes :: "('w \<Rightarrow> cbid jsset) \<Rightarrow> ('a, 'w) callbacks \<Rightarrow> cbid \<Rightarrow> cbid \<Rightarrow> bool" where
  "deletes reg env cb b = (\<forall>a w. reg (snd (env cb a w)) = set_delete b (reg w))"

definition adds :: "('w \<Rightarrow> cbid jsset) \<Rightarrow> ('a, 'w) callbacks \<Rightarrow> cbid \<Rightarrow> cbid \<Rightarrow> bool" where
  "adds reg env cb c = (\<forall>a w. reg (snd (env cb a w)) = set_add c (reg w))"

section \<open>Calendar service (createCalendarService)\<close>

text \<open>
  Days, \<open>daysPerSeason\<close> and \<open>startDayOfWeek\<close> are JavaScript numbers holding integers;
  they are modelled as \<open>int\<close>. The season progress is a quotient of two such integers
  and is modelled as the exact rational.
\<close>

datatype config_error = NoSeasons | NonPositiveDaysPerSeason

record CalendarConfig =
  daysPerSeason :: int
  seasons :: "string list"
  startDayOfWeek :: "int option"

text \<open>The values the closure of \<open>createCalendarService\<close> captures.\<close>

record CalendarService =
  cs_daysPerSeason :: int
  cs_seasons :: "string list"
  cs_startDayOfWeek :: int
  cs_daysPerYear :: int

text \<open>JavaScript's \<open>%\<close>: the remainder takes the sign of the dividend.\<close>

definition js_rem :: "int \<Rightarrow> int \<Rightarrow> int" where
  "js_rem a b = sgn a * (\<bar>a\<bar> mod \<bar>b\<bar>)"

definition createCalendarService :: "CalendarConfig \<Rightarrow> config_error + CalendarService" where
  "createCalendarService config =
     (if length (seasons config) = 0 then Inl NoSeasons
      else if daysPerSeason config \<le> 0 then Inl NonPositiveDaysPerSeason
      else Inr \<lparr> cs_daysPerSeason = daysPerSeason config,
                 cs_seasons = seasons config,
                 cs_startDayOfWeek = (case startDayOfWeek config of None \<Rightarrow> 0 | Some d \<Rightarrow> d),
                 cs_daysPerYear = daysPerSeason config * int (length (seasons config)) \<rparr>)"

definition normalizeDay :: "int \<Rightarrow> int" where
  "normalizeDay day = max 1 day"

text \<open>\<open>Math.floor(dayInYear / daysPerSeason)\<close>: \<open>div\<close> on \<open>int\<close> rounds down.\<close>

definition getSeasonIndex :: "CalendarService \<Rightarrow> int \<Rightarrow> int" where
  "getSeasonIndex c day =
     (let normalizedDay = normalizeDay day;
          dayIndex = normalizedDay - 1;
          dayInYear = js_rem dayIndex (cs_daysPerYear c)
      in dayInYear div cs_daysPerSeason c)"

text \<open>An array read out of range yields \<open>undefined\<close> (here \<open>None\<close>); it does not throw.\<close>

definition getSeason :: "CalendarService \<Rightarrow> int \<Rightarrow> string option" where
  "getSeason c day =
     (let i = getSeasonIndex c day
      in if 0 \<le> i \<and> nat i < length (cs_seasons c) then Some (cs_seasons c ! nat i) else None)"

definition getDayInSeason :: "CalendarService \<Rightarrow> int \<Rightarrow> int" where
  "getDayInSeason c day =
     (let normalizedDay = normalizeDay day;
          dayIndex = normalizedDay - 1
      in js_rem dayIndex (cs_daysPerSeason c) + 1)"

definition getYear :: "CalendarService \<Rightarrow> int \<Rightarrow> int" where
  "getYear c day =
     (let normalizedDay = normalizeDay day
      in (normalizedDay - 1) div cs_daysPerYear c + 1)"

definition getSeasonProgress :: "CalendarService \<Rightarrow> int \<Rightarrow> rat" where
  "getSeasonProgress c day =
     (let dayInSeason = getDayInSeason c day
      in if cs_daysPerSeason c = 1 then 0
         else of_int (dayInSeason - 1) / of_int (cs_daysPerSeason c - 1))"

definition getDayOfWeek :: "CalendarService \<Rightarrow> int \<Rightarrow> int" where
  "getDayOfWeek c day =
     (let normalizedDay = normalizeDay day
      in js_rem (cs_startDayOfWeek c + normalizedDay - 1) 7)"

section \<open>Modal queue (createModalQueue)\<close>

text \<open>
  The field \<open>id\<close> of an item is \<open>item_id\<close> here.
  \<open>onClose\<close> holds the identity of the item's callback, if it has one. A callback is
  called either with a snapshot of the queue (subscribers) or with the result handed to
  \<open>pop\<close> (\<open>onClose\<close>; \<open>None\<close> is \<open>undefined\<close>).
\<close>

record ('c, 'p) ModalQueueItem =
  item_id :: string
  component :: 'c
  props :: "'p option"
  onClose :: "cbid option"

datatype ('c, 'p, 'r) mq_arg =
    QueueArg "('c, 'p) ModalQueueItem list"
  | ResultArg "'r option"

record ('c, 'p) ModalQueue =
  queue :: "('c, 'p) ModalQueueItem list"
  subscribers :: "cbid jsset"

definition createModalQueue :: "('c, 'p) ModalQueue" where
  "createModalQueue = \<lparr> queue = [], subscribers = [] \<rparr>"

text \<open>
  \<open>notify\<close>: the queue is copied once, then the live subscriber set is walked; each
  call sits in its own \<open>try/catch\<close>, so no exception leaves \<open>visit\<close>. Every operation
  returns the calls it made itself, in order, with the world it leaves.
\<close>

definition mq_notify ::
  "(('c, 'p, 'r) mq_arg, ('c, 'p, 'z) ModalQueue_scheme) callbacks
     \<Rightarrow> ('c, 'p, 'z) ModalQueue_scheme
     \<Rightarrow> ((cbid \<times> ('c, 'p, 'r) mq_arg) list \<times> ('c, 'p, 'z) ModalQueue_scheme) option" where
  "mq_notify env w =
     (let snapshot = queue w
      in map_option
           (\<lambda>(threw, visited, w'). (map (\<lambda>cb. (cb, QueueArg snapshot)) visited, w'))
           (forEach subscribers (\<lambda>cb w1. (False, snd (env cb (QueueArg snapshot) w1))) 0 [] w))"

definition safeOnClose ::
  "(('c, 'p, 'r) mq_arg, 'w) callbacks \<Rightarrow> ('c, 'p) ModalQueueItem \<Rightarrow> 'r option \<Rightarrow> 'w
     \<Rightarrow> (cbid \<times> ('c, 'p, 'r) mq_arg) list \<times> 'w" where
  "safeOnClose env item result w =
     (case onClose item of
        None \<Rightarrow> ([], w)
      | Some cb \<Rightarrow> ([(cb, ResultArg result)], snd (env cb (ResultArg result) w)))"

definition mq_push ::
  "(('c, 'p, 'r) mq_arg, ('c, 'p, 'z) ModalQueue_scheme) callbacks
     \<Rightarrow> ('c, 'p) ModalQueueItem \<Rightarrow> ('c, 'p, 'z) ModalQueue_scheme
     \<Rightarrow> ((cbid \<times> ('c, 'p, 'r) mq_arg) list \<times> ('c, 'p, 'z) ModalQueue_scheme) option" where
  "mq_push env item w = mq_notify env (w\<lparr>queue := queue w @ [item]\<rparr>)"

text \<open>\<open>pop\<close>: \<open>queue.shift()\<close> removes the head before its \<open>onClose\<close> runs.\<close>

definition mq_pop ::
  "(('c, 'p, 'r) mq_arg, ('c, 'p, 'z) ModalQueue_scheme) callbacks
     \<Rightarrow> 'r option \<Rightarrow> ('c, 'p, 'z) ModalQueue_scheme
     \<Rightarrow> ((cbid \<times> ('c, 'p, 'r) mq_arg) list \<times> ('c, 'p, 'z) ModalQueue_scheme) option" where
  "mq_pop env result w =
     (case queue w of
        [] \<Rightarrow> mq_notify env w
      | item # rest \<Rightarrow>
          (case safeOnClose env item result (w\<lparr>queue := rest\<rparr>) of
             (closeCalls, w1) \<Rightarrow>
               map_option (\<lambda>(notifyCalls, w2). (closeCalls @ notifyCalls, w2)) (mq_notify env w1)))"

fun closeAll ::
  "(('c, 'p, 'r) mq_arg, 'w) callbacks \<Rightarrow> ('c, 'p) ModalQueueItem list \<Rightarrow> 'w
     \<Rightarrow> (cbid \<times> ('c, 'p, 'r) mq_arg) list \<times> 'w" where
  "closeAll env [] w = ([], w)"
| "closeAll env (item # items) w =
     (case safeOnClose env item None w of
        (closeCalls, w1) \<Rightarrow> (case closeAll env items w1 of (later, w2) \<Rightarrow> (closeCalls @ later, w2)))"

definition mq_clear ::
  "(('c, 'p, 'r) mq_arg, ('c, 'p, 'z) ModalQueue_scheme) callbacks
     \<Rightarrow> ('c, 'p, 'z) ModalQueue_scheme
     \<Rightarrow> ((cbid \<times> ('c, 'p, 'r) mq_arg) list \<times> ('c, 'p, 'z) ModalQueue_scheme) option" where
  "mq_clear env w =
     (let items = queue w
      in case closeAll env items (w\<lparr>queue := []\<rparr>) of
           (closeCalls, w1) \<Rightarrow>
             map_option (\<lambda>(notifyCalls, w2). (closeCalls @ notifyCalls, w2)) (mq_notify env w1))"




text \<open>
  \<open>subscribe\<close> registers the callback and calls it at once inside \<open>try/catch\<close>; the
  function it returns is \<open>mq_unsubscribe\<close> of the same callback.
\<close>

definition mq_subscribe ::
  "(('c, 'p, 'r) mq_arg, ('c, 'p, 'z) ModalQueue_scheme) callbacks
     \<Rightarrow> cbid \<Rightarrow> ('c, 'p, 'z) ModalQueue_scheme
     \<Rightarrow> (cbid \<times> ('c, 'p, 'r) mq_arg) list \<times> ('c, 'p, 'z) ModalQueue_scheme" where
  "mq_subscribe env callback w =
     (let w1 = w\<lparr>subscribers := set_add callback (subscribers w)\<rparr>
      in ([(callback, QueueArg (queue w1))], snd (env callback (QueueArg (queue w1)) w1)))"

definition mq_unsubscribe :: "cbid \<Rightarrow> ('c, 'p, 'z) ModalQueue_scheme \<Rightarrow> ('c, 'p, 'z) ModalQueue_scheme" where
  "mq_unsubscribe callback w = w\<lparr>subscribers := set_delete callback (subscribers w)\<rparr>"

section \<open>Event bus (createEventBus)\<close>

text \<open>
  A registered listener is either a function of the caller or one of the wrappers that
  \<open>once\<close> creates. Each call of \<open>once\<close> creates a new closure; its identity is
  the number of wrappers created before it, and it captures the event and the callback.
\<close>

datatype 'e listener = Plain cbid | OnceWrapper nat 'e cbid

record 'e EventBus =
  listeners :: "'e \<Rightarrow> 'e listener jsset option"
  wrappersCreated :: nat

definition createEventBus :: "'e EventBus" where
  "createEventBus = \<lparr> listeners = (\<lambda>event. None), wrappersCreated = 0 \<rparr>"

definition off :: "'e \<Rightarrow> 'e listener \<Rightarrow> ('e, 'z) EventBus_scheme \<Rightarrow> ('e, 'z) EventBus_scheme" where
  "off event callback w =
     (case listeners w event of
        None \<Rightarrow> w
      | Some s \<Rightarrow> w\<lparr>listeners := (listeners w)(event \<mapsto> set_delete callback s)\<rparr>)"

text \<open>
  \<open>on\<close> returns the function \<open>() => this.off(event, callback)\<close>, represented by the
  pair it closes over; \<open>unsubscribe\<close> calls it.
\<close>

definition on ::
  "'e \<Rightarrow> 'e listener \<Rightarrow> ('e, 'z) EventBus_scheme
     \<Rightarrow> ('e \<times> 'e listener) \<times> ('e, 'z) EventBus_scheme" where
  "on event callback w =
     (let w1 = (if listeners w event = None then w\<lparr>listeners := (listeners w)(event \<mapsto> [])\<rparr> else w);
          s = (case listeners w1 event of None \<Rightarrow> [] | Some s \<Rightarrow> s)
      in ((event, callback), w1\<lparr>listeners := (listeners w1)(event \<mapsto> set_add callback s)\<rparr>))"

definition unsubscribe ::
  "'e \<times> 'e listener \<Rightarrow> ('e, 'z) EventBus_scheme \<Rightarrow> ('e, 'z) EventBus_scheme" where
  "unsubscribe handle w = off (fst handle) (snd handle) w"

text \<open>
  Calling a listener. The wrapper of \<open>once\<close> first removes itself, then calls the
  callback; it keeps no record of having fired.
\<close>

definition invoke ::
  "('d, ('e, 'z) EventBus_scheme) callbacks \<Rightarrow> 'e listener \<Rightarrow> 'd
     \<Rightarrow> ('e, 'z) EventBus_scheme \<Rightarrow> bool \<times> ('e, 'z) EventBus_scheme" where
  "invoke env l data w =
     (case l of
        Plain cb \<Rightarrow> env cb data w
      | OnceWrapper n event cb \<Rightarrow> env cb data (off event (OnceWrapper n event cb) w))"

text \<open>
  \<open>emit\<close> copies the listener set (\<open>[...eventListeners]\<close>) and calls every member of
  the copy inside \<open>try/catch\<close>. It returns the calls it made itself.
\<close>

fun emitLoop ::
  "('d, ('e, 'z) EventBus_scheme) callbacks \<Rightarrow> 'd \<Rightarrow> 'e listener list
     \<Rightarrow> ('e, 'z) EventBus_scheme \<Rightarrow> ('e listener \<times> 'd) list \<times> ('e, 'z) EventBus_scheme" where
  "emitLoop env data [] w = ([], w)"
| "emitLoop env data (callback # snapshot) w =
     (case invoke env callback data w of
        (threw, w1) \<Rightarrow>
          (case emitLoop env data snapshot w1 of (calls, w2) \<Rightarrow> ((callback, data) # calls, w2)))"

definition emit ::
  "('d, ('e, 'z) EventBus_scheme) callbacks \<Rightarrow> 'e \<Rightarrow> 'd
     \<Rightarrow> ('e, 'z) EventBus_scheme \<Rightarrow> ('e listener \<times> 'd) list \<times> ('e, 'z) EventBus_scheme" where
  "emit env event data w =
     (case listeners w event of
        None \<Rightarrow> ([], w)
      | Some eventListeners \<Rightarrow> emitLoop env data (set_values eventListeners) w)"

definition once ::
  "'e \<Rightarrow> cbid \<Rightarrow> ('e, 'z) EventBus_scheme
     \<Rightarrow> ('e \<times> 'e listener) \<times> ('e, 'z) EventBus_scheme" where
  "once event callback w =
     (let wrapper = OnceWrapper (wrappersCreated w) event callback
      in on event wrapper (w\<lparr>wrappersCreated := Suc (wrappersCreated w)\<rparr>))"

section \<open>Scoped store (createScopedStore)\<close>

text \<open>
  The scoped store is modelled on values: \<open>deepClone\<close> of JSON data yields equal data.
  The world holds the parent store's current state next to the scoped store's own variables.
  The parent state has any type \<open>'t\<close>; only \<open>select\<close> and \<open>update\<close> read it.
\<close>

definition deepClone :: "'a \<Rightarrow> 'a" where
  "deepClone x = x"

record ('t, 'v) ScopedStoreOptions =
  select :: "'t \<Rightarrow> 'v obj"
  update :: "'t \<Rightarrow> 'v obj \<Rightarrow> 't"

text \<open>
  A whole-state subscriber receives the scoped state, a key subscriber the value of its key
  (\<open>None\<close> when the key is absent).
\<close>

datatype 'v scoped_arg = StateArg "'v obj" | ValueArg "'v option"

record ('t, 'v) ScopedStore =
  parentState :: 't
  initialScopedState :: "'v obj"
  lastScopedState :: "'v obj"
  scopedSubscribers :: "cbid jsset"
  keySubscribers :: "key \<Rightarrow> cbid jsset option"

text \<open>
  \<open>notify\<close> walks the live subscriber set and calls each callback without
  \<open>try/catch\<close>: an exception ends the walk and leaves \<open>notify\<close>.
\<close>

definition ss_notify ::
  "('v scoped_arg, ('t, 'v, 'z) ScopedStore_scheme) callbacks \<Rightarrow> 'v obj
     \<Rightarrow> ('t, 'v, 'z) ScopedStore_scheme
     \<Rightarrow> (bool \<times> (cbid \<times> 'v scoped_arg) list \<times> ('t, 'v, 'z) ScopedStore_scheme) option" where
  "ss_notify env state w =
     (let snapshot = deepClone state
      in map_option
           (\<lambda>(threw, visited, w'). (threw, map (\<lambda>cb. (cb, StateArg snapshot)) visited, w'))
           (forEach scopedSubscribers (\<lambda>cb w1. env cb (StateArg snapshot) w1) 0 [] w))"

text \<open>
  \<open>getChangedKeys\<close>: the keys of both states, each once in order of first appearance,
  that have different serialised values.
\<close>

definition getChangedKeys :: "'v obj \<Rightarrow> 'v obj \<Rightarrow> key list" where
  "getChangedKeys oldState newState =
     (let allKeys = set_values (fold set_add (keys oldState @ keys newState) [])
      in filter (\<lambda>key. map_of oldState key \<noteq> map_of newState key) allKeys)"

text \<open>
  \<open>notifyKeySubscribers\<close>: for each changed key that has a subscriber set, the live set
  is walked, again without \<open>try/catch\<close>.
\<close>

fun notifyKeySubscribers ::
  "('v scoped_arg, ('t, 'v, 'z) ScopedStore_scheme) callbacks \<Rightarrow> key list \<Rightarrow> 'v obj
     \<Rightarrow> ('t, 'v, 'z) ScopedStore_scheme
     \<Rightarrow> (bool \<times> (cbid \<times> 'v scoped_arg) list \<times> ('t, 'v, 'z) ScopedStore_scheme) option" where
  "notifyKeySubscribers env [] state w = Some (False, [], w)"
| "notifyKeySubscribers env (key # changedKeys) state w =
     (case keySubscribers w key of
        None \<Rightarrow> notifyKeySubscribers env changedKeys state w
      | Some subs \<Rightarrow>
          (let v = map_of state key
           in case forEach (\<lambda>w1. case keySubscribers w1 key of None \<Rightarrow> [] | Some s \<Rightarrow> s)
                     (\<lambda>cb w1. env cb (ValueArg v) w1) 0 [] w of
                None \<Rightarrow> None
              | Some (threw, visited, w1) \<Rightarrow>
                  if threw then Some (True, map (\<lambda>cb. (cb, ValueArg v)) visited, w1)
                  else (case notifyKeySubscribers env changedKeys state w1 of
                          None \<Rightarrow> None
                        | Some (threw2, later, w2) \<Rightarrow>
                            Some (threw2, map (\<lambda>cb. (cb, ValueArg v)) visited @ later, w2))))"

text \<open>
  The function subscribed to the parent store. It returns whether an exception left it,
  the calls it made, and the world.
\<close>

definition parentHandler ::
  "('t, 'v) ScopedStoreOptions \<Rightarrow> ('v scoped_arg, ('t, 'v, 'z) ScopedStore_scheme) callbacks
     \<Rightarrow> 't \<Rightarrow> ('t, 'v, 'z) ScopedStore_scheme
     \<Rightarrow> (bool \<times> (cbid \<times> 'v scoped_arg) list \<times> ('t, 'v, 'z) ScopedStore_scheme) option" where
  "parentHandler options env parentSt w =
     (let currentScoped = select options parentSt;
          changedKeys = getChangedKeys (lastScopedState w) currentScoped
      in if length changedKeys > 0 then
           (case ss_notify env currentScoped (w\<lparr>lastScopedState := deepClone currentScoped\<rparr>) of
              None \<Rightarrow> None
            | Some (threw, calls, w1) \<Rightarrow>
                if threw then Some (True, calls, w1)
                else (case notifyKeySubscribers env changedKeys currentScoped w1 of
                        None \<Rightarrow> None
                      | Some (threw2, later, w2) \<Rightarrow> Some (threw2, calls @ later, w2)))
         else Some (False, [], w))"

text \<open>
  Modelled from the spec: \<open>createGameStore\<close> is not among the sources. Store Core
  \<open>set\<close> replaces the current state wholesale and then notifies its subscribers, here
  the scoped store's handler; an error thrown inside a subscriber is isolated by the core and
  does not reach the caller of \<open>set\<close>.
\<close>

definition parent_set ::
  "('t, 'v) ScopedStoreOptions \<Rightarrow> ('v scoped_arg, ('t, 'v, 'z) ScopedStore_scheme) callbacks
     \<Rightarrow> 't \<Rightarrow> ('t, 'v, 'z) ScopedStore_scheme
     \<Rightarrow> ((cbid \<times> 'v scoped_arg) list \<times> ('t, 'v, 'z) ScopedStore_scheme) option" where
  "parent_set options env newState w =
     map_option (\<lambda>(threw, calls, w1). (calls, w1))
       (parentHandler options env newState (w\<lparr>parentState := newState\<rparr>))"


text \<open>
  Construction. The handler is subscribed to the parent and called at once; the tracked state
  then equals the projection, so that first call does nothing.
\<close>

definition createScopedStore :: "('t, 'v) ScopedStoreOptions \<Rightarrow> 't \<Rightarrow> ('t, 'v) ScopedStore" where
  "createScopedStore options parentSt =
     \<lparr> parentState = parentSt,
       initialScopedState = deepClone (select options parentSt),
       lastScopedState = deepClone (select options parentSt),
       scopedSubscribers = [],
       keySubscribers = (\<lambda>key. None) \<rparr>"

definition ss_get :: "('t, 'v) ScopedStoreOptions \<Rightarrow> ('t, 'v, 'z) ScopedStore_scheme \<Rightarrow> 'v obj" where
  "ss_get options w = deepClone (select options (parentState w))"

definition ss_set ::
  "('t, 'v) ScopedStoreOptions \<Rightarrow> ('v scoped_arg, ('t, 'v, 'z) ScopedStore_scheme) callbacks
     \<Rightarrow> 'v obj \<Rightarrow> ('t, 'v, 'z) ScopedStore_scheme
     \<Rightarrow> ((cbid \<times> 'v scoped_arg) list \<times> ('t, 'v, 'z) ScopedStore_scheme) option" where
  "ss_set options env newState w =
     (let parentSt = parentState w;
          newParentState = update options parentSt (deepClone newState)
      in parent_set options env newParentState w)"


definition ss_patch ::
  "('t, 'v) ScopedStoreOptions \<Rightarrow> ('v scoped_arg, ('t, 'v, 'z) ScopedStore_scheme) callbacks
     \<Rightarrow> 'v obj \<Rightarrow> ('t, 'v, 'z) ScopedStore_scheme
     \<Rightarrow> ((cbid \<times> 'v scoped_arg) list \<times> ('t, 'v, 'z) ScopedStore_scheme) option" where
  "ss_patch options env partial w =
     (let currentScoped = select options (parentState w);
          newScoped = spread currentScoped (deepClone partial)
      in ss_set options env newScoped w)"


text \<open>
  \<open>subscribe\<close> and \<open>subscribeToKey\<close> call the new callback at once, outside any
  \<open>try/catch\<close>; the functions they return are \<open>ss_unsubscribe\<close> and
  \<open>ss_unsubscribeFromKey\<close>.
\<close>

definition ss_subscribe ::
  "('t, 'v) ScopedStoreOptions \<Rightarrow> ('v scoped_arg, ('t, 'v, 'z) ScopedStore_scheme) callbacks
     \<Rightarrow> cbid \<Rightarrow> ('t, 'v, 'z) ScopedStore_scheme \<Rightarrow> bool \<times> ('t, 'v, 'z) ScopedStore_scheme" where
  "ss_subscribe options env callback w =
     (let w1 = w\<lparr>scopedSubscribers := set_add callback (scopedSubscribers w)\<rparr>
      in env callback (StateArg (deepClone (select options (parentState w1)))) w1)"

definition ss_unsubscribe ::
  "cbid \<Rightarrow> ('t, 'v, 'z) ScopedStore_scheme \<Rightarrow> ('t, 'v, 'z) ScopedStore_scheme" where
  "ss_unsubscribe callback w = w\<lparr>scopedSubscribers := set_delete callback (scopedSubscribers w)\<rparr>"

definition ss_subscribeToKey ::
  "('t, 'v) ScopedStoreOptions \<Rightarrow> ('v scoped_arg, ('t, 'v, 'z) ScopedStore_scheme) callbacks
     \<Rightarrow> key \<Rightarrow> cbid \<Rightarrow> ('t, 'v, 'z) ScopedStore_scheme \<Rightarrow> bool \<times> ('t, 'v, 'z) ScopedStore_scheme" where
  "ss_subscribeToKey options env key callback w =
     (let w1 = (if keySubscribers w key = None
                then w\<lparr>keySubscribers := (keySubscribers w)(key \<mapsto> [])\<rparr> else w);
          subs = (case keySubscribers w1 key of None \<Rightarrow> [] | Some s \<Rightarrow> s);
          w2 = w1\<lparr>keySubscribers := (keySubscribers w1)(key \<mapsto> set_add callback subs)\<rparr>;
          currentState = select options (parentState w2)
      in env callback (ValueArg (map_of currentState key)) w2)"

definition ss_unsubscribeFromKey ::
  "key \<Rightarrow> cbid \<Rightarrow> ('t, 'v, 'z) ScopedStore_scheme \<Rightarrow> ('t, 'v, 'z) ScopedStore_scheme" where
  "ss_unsubscribeFromKey key callback w =
     (case keySubscribers w key of
        None \<Rightarrow> w
      | Some subs \<Rightarrow> w\<lparr>keySubscribers := (keySubscribers w)(key \<mapsto> set_delete callback subs)\<rparr>)"

text \<open>
  The scope of the documentation and the tests, over one key \<open>k\<close> of a parent object:
  \<open>select: (state) => state.k\<close> and \<open>update: (state, v) => ({...state, k: v})\<close>.
\<close>

definition scopeOver :: "key \<Rightarrow> (json obj, json) ScopedStoreOptions" where
  "scopeOver k =
     \<lparr> select = (\<lambda>state. case map_of state k of Some (JObj player) \<Rightarrow> player | _ \<Rightarrow> []),
       update = (\<lambda>state player. assign k (JObj player) state) \<rparr>"

section \<open>Store Core and middleware pipeline (createGameStoreWithMiddleware)\<close>

text \<open>
  The middleware store hands objects to hooks which may mutate them, so here objects live in
  a heap: an address holds one object, \<open>used\<close> is the next free address.
  \<open>JSON.parse(JSON.stringify(obj))\<close> allocates a new object with the same content.
\<close>

type_synonym addr = nat

record 'v heap =
  cells :: "addr \<Rightarrow> 'v obj"
  used :: nat

definition alloc :: "'v obj \<Rightarrow> 'v heap \<Rightarrow> addr \<times> 'v heap" where
  "alloc v h = (used h, h\<lparr>cells := (cells h)(used h := v), used := Suc (used h)\<rparr>)"

definition deepCloneRef :: "addr \<Rightarrow> 'v heap \<Rightarrow> addr \<times> 'v heap" where
  "deepCloneRef a h = alloc (cells h a) h"

text \<open>The base store: the address of its current state object and of its initial snapshot.\<close>

record GameStore =
  current :: addr
  initial :: addr

text \<open>
  Modelled from the spec: \<open>createGameStore\<close> is not among the sources. The store
  captures a snapshot of the initial state for \<open>reset\<close> and holds its own copy as current
  state; no caller shares an object with the store.
\<close>

definition createGameStore :: "addr \<Rightarrow> 'v heap \<Rightarrow> GameStore \<times> 'v heap" where
  "createGameStore initialState h =
     (let (a0, h0) = deepCloneRef initialState h;
          (a1, h1) = deepCloneRef initialState h0
      in (\<lparr> current = a0, initial = a1 \<rparr>, h1))"

text \<open>
  Modelled from the spec: Store Core \<open>get\<close> (source absent) returns a deep, independent
  copy of the current state, never the object stored internally.
\<close>

definition core_get :: "GameStore \<Rightarrow> 'v heap \<Rightarrow> addr \<times> 'v heap" where
  "core_get c h = deepCloneRef (current c) h"

text \<open>
  Modelled from the spec: Store Core \<open>set\<close> (source absent) replaces the current state
  wholesale, holding a copy of its own.
\<close>

definition core_set :: "addr \<Rightarrow> GameStore \<Rightarrow> 'v heap \<Rightarrow> GameStore \<times> 'v heap" where
  "core_set newState c h = (let (a, h1) = deepCloneRef newState h in (c\<lparr>current := a\<rparr>, h1))"

text \<open>
  Modelled from the spec: Store Core \<open>patch\<close> (source absent) shallow-merges the partial
  into the current state, top-level keys only, and installs the result as a new value.
\<close>

definition core_patch :: "addr \<Rightarrow> GameStore \<Rightarrow> 'v heap \<Rightarrow> GameStore \<times> 'v heap" where
  "core_patch partial c h =
     (let (a, h1) = alloc (spread (cells h (current c)) (cells h partial)) h
      in (c\<lparr>current := a\<rparr>, h1))"

text \<open>
  Modelled from the spec: Store Core \<open>reset\<close> (source absent) restores the captured
  initial snapshot as current state.
\<close>

definition core_reset :: "GameStore \<Rightarrow> 'v heap \<Rightarrow> GameStore \<times> 'v heap" where
  "core_reset c h = (let (a, h1) = deepCloneRef (initial c) h in (c\<lparr>current := a\<rparr>, h1))"

text \<open>The stored state: the content of the store's current object.\<close>

definition stored :: "GameStore \<Rightarrow> 'v heap \<Rightarrow> 'v obj" where
  "stored c h = cells h (current c)"

text \<open>
  A hook is given by what it does to the content of the objects it receives: the content it
  leaves in each argument object when it returns or throws, and its result. A pre-write hook
  returns nothing, returns an object, or throws; a post-write hook returns any value or
  throws. Hooks that call the store's own operations while they run are not described.
\<close>

datatype 'v before_result = BeforeVoid | BeforePatch "'v obj" | BeforeThrow

record 'v before_effect =
  stateLeft :: "'v obj"
  patchLeft :: "'v obj"
  beforeResult :: "'v before_result"

datatype 'v after_result = AfterReturn "'v option" | AfterThrow

record 'v after_effect =
  prevLeft :: "'v obj"
  newLeft :: "'v obj"
  appliedLeft :: "'v obj"
  afterResult :: "'v after_result"

record 'v Middleware =
  name :: string
  beforePatch :: "('v obj \<Rightarrow> 'v obj \<Rightarrow> 'v before_effect) option"
  afterPatch :: "('v obj \<Rightarrow> 'v obj \<Rightarrow> 'v obj \<Rightarrow> 'v after_effect) option"

text \<open>
  What a write did, in order: each hook call with the addresses and the content of the objects
  it received (a pre-write call also with its result), and the call of the core's native
  operation with the content it was given.
\<close>

datatype 'v pipeline_event =
    BeforeCall string addr addr "'v obj" "'v obj" "'v before_result"
  | CoreSet "'v obj"
  | CorePatch "'v obj"
  | CoreReset "'v obj"
  | AfterCall string addr addr addr "'v obj" "'v obj" "'v obj"

text \<open>
  \<open>runBeforePatch\<close>: every hook receives clones of the state and of the current patch;
  whatever it leaves in the clones is written to the clones. A returned object becomes the
  current patch; \<open>undefined\<close> and a caught exception leave it as it was.
\<close>

fun runBeforePatch ::
  "'v Middleware list \<Rightarrow> addr \<Rightarrow> addr \<Rightarrow> 'v heap \<Rightarrow> 'v pipeline_event list \<times> addr \<times> 'v heap" where
  "runBeforePatch [] state currentPatch h = ([], currentPatch, h)"
| "runBeforePatch (mw # rest) state currentPatch h =
     (case beforePatch mw of
        None \<Rightarrow> runBeforePatch rest state currentPatch h
      | Some hook \<Rightarrow>
          (let (a1, h1) = deepCloneRef state h;
               (a2, h2) = deepCloneRef currentPatch h1;
               effect = hook (cells h2 a1) (cells h2 a2);
               h3 = h2\<lparr>cells := (cells h2)(a1 := stateLeft effect, a2 := patchLeft effect)\<rparr>;
               call = BeforeCall (name mw) a1 a2 (cells h2 a1) (cells h2 a2) (beforeResult effect)
           in case beforeResult effect of
                BeforePatch result \<Rightarrow>
                  (let (r, h4) = alloc result h3;
                       (calls, finalPatch, h5) = runBeforePatch rest state r h4
                   in (call # calls, finalPatch, h5))
              | _ \<Rightarrow>
                  (let (calls, finalPatch, h5) = runBeforePatch rest state currentPatch h3
                   in (call # calls, finalPatch, h5))))"

text \<open>
  \<open>runAfterPatch\<close>: every hook receives three clones; its result and its exception are
  dropped.
\<close>

fun runAfterPatch ::
  "'v Middleware list \<Rightarrow> addr \<Rightarrow> addr \<Rightarrow> addr \<Rightarrow> 'v heap \<Rightarrow> 'v pipeline_event list \<times> 'v heap" where
  "runAfterPatch [] prevState newState patch h = ([], h)"
| "runAfterPatch (mw # rest) prevState newState patch h =
     (case afterPatch mw of
        None \<Rightarrow> runAfterPatch rest prevState newState patch h
      | Some hook \<Rightarrow>
          (let (a1, h1) = deepCloneRef prevState h;
               (a2, h2) = deepCloneRef newState h1;
               (a3, h3) = deepCloneRef patch h2;
               effect = hook (cells h3 a1) (cells h3 a2) (cells h3 a3);
               h4 = h3\<lparr>cells := (cells h3)(a1 := prevLeft effect, a2 := newLeft effect,
                                            a3 := appliedLeft effect)\<rparr>;
               call = AfterCall (name mw) a1 a2 a3 (cells h3 a1) (cells h3 a2) (cells h3 a3);
               (calls, h5) = runAfterPatch rest prevState newState patch h4
           in (call # calls, h5)))"

definition mw_get :: "GameStore \<Rightarrow> 'v heap \<Rightarrow> addr \<times> 'v heap" where
  "mw_get c h = core_get c h"

definition mw_set ::
  "'v Middleware list \<Rightarrow> addr \<Rightarrow> GameStore \<Rightarrow> 'v heap
     \<Rightarrow> 'v pipeline_event list \<times> GameStore \<times> 'v heap" where
  "mw_set middleware newState c h =
     (let (prevState, h1) = core_get c h;
          (before, finalState, h2) = runBeforePatch middleware prevState newState h1;
          (c1, h3) = core_set finalState c h2;
          (nowState, h4) = core_get c1 h3;
          (after, h5) = runAfterPatch middleware prevState nowState finalState h4
      in (before @ [CoreSet (cells h2 finalState)] @ after, c1, h5))"

text \<open>
  \<open>update\<close>: the updater receives a clone of the previous state; the object it returns
  is the patch that enters the pipeline. The updater is a function that returns.
\<close>

definition mw_update ::
  "'v Middleware list \<Rightarrow> ('v obj \<Rightarrow> 'v obj) \<Rightarrow> GameStore \<Rightarrow> 'v heap
     \<Rightarrow> 'v pipeline_event list \<times> GameStore \<times> 'v heap" where
  "mw_update middleware updater c h =
     (let (prevState, h1) = core_get c h;
          (copy, h2) = deepCloneRef prevState h1;
          (updatedState, h3) = alloc (updater (cells h2 copy)) h2;
          (before, finalState, h4) = runBeforePatch middleware prevState updatedState h3;
          (c1, h5) = core_set finalState c h4;
          (nowState, h6) = core_get c1 h5;
          (after, h7) = runAfterPatch middleware prevState nowState finalState h6
      in (before @ [CoreSet (cells h4 finalState)] @ after, c1, h7))"

definition mw_patch ::
  "'v Middleware list \<Rightarrow> addr \<Rightarrow> GameStore \<Rightarrow> 'v heap
     \<Rightarrow> 'v pipeline_event list \<times> GameStore \<times> 'v heap" where
  "mw_patch middleware partial c h =
     (let (prevState, h1) = core_get c h;
          (before, finalPatch, h2) = runBeforePatch middleware prevState partial h1;
          (c1, h3) = core_patch finalPatch c h2;
          (nowState, h4) = core_get c1 h3;
          (after, h5) = runAfterPatch middleware prevState nowState finalPatch h4
      in (before @ [CorePatch (cells h2 finalPatch)] @ after, c1, h5))"

definition mw_reset ::
  "'v Middleware list \<Rightarrow> GameStore \<Rightarrow> 'v heap
     \<Rightarrow> 'v pipeline_event list \<times> GameStore \<times> 'v heap" where
  "mw_reset middleware c h =
     (let (prevState, h1) = core_get c h;
          (c1, h2) = core_reset c h1;
          (nowState, h3) = core_get c1 h2;
          (after, h4) = runAfterPatch middleware prevState nowState nowState h3
      in (CoreReset (cells h2 (current c1)) # after, c1, h4))"

text \<open>The four write operations of the wrapped store as one function.\<close>

datatype 'v store_write = WriteSet addr | WriteUpdate "'v obj \<Rightarrow> 'v obj" | WritePatch addr | WriteReset

definition mw_write ::
  "'v Middleware list \<Rightarrow> 'v store_write \<Rightarrow> GameStore \<Rightarrow> 'v heap
     \<Rightarrow> 'v pipeline_event list \<times> GameStore \<times> 'v heap" where
  "mw_write middleware wr c h =
     (case wr of
        WriteSet newState \<Rightarrow> mw_set middleware newState c h
      | WriteUpdate updater \<Rightarrow> mw_update middleware updater c h
      | WritePatch partial \<Rightarrow> mw_patch middleware partial c h
      | WriteReset \<Rightarrow> mw_reset middleware c h)"

text \<open>The objects a write is given exist in the heap.\<close>

definition write_allocated :: "'v store_write \<Rightarrow> 'v heap \<Rightarrow> bool" where
  "write_allocated wr h =
     (case wr of WriteSet a \<Rightarrow> a < used h | WritePatch a \<Rightarrow> a < used h | _ \<Rightarrow> True)"

section \<open>Reading traces\<close>

text \<open>
  \<open>sequentiallyChained p calls final\<close>: the calls are pre-write hook calls, the first
  received \<open>p\<close>, each next one received what the one before returned, or what that one
  had received when it returned nothing or threw, and \<open>final\<close> is what is left after the
  last.
\<close>

fun sequentiallyChained :: "'v obj \<Rightarrow> 'v pipeline_event list \<Rightarrow> 'v obj \<Rightarrow> bool" where
  "sequentiallyChained p [] final = (final = p)"
| "sequentiallyChained p (BeforeCall n a1 a2 s q result # calls) final =
     (q = p \<and> sequentiallyChained (case result of BeforePatch r \<Rightarrow> r | _ \<Rightarrow> p) calls final)"
| "sequentiallyChained p (e # calls) final = False"

fun beforeCallOf :: "'v pipeline_event \<Rightarrow> (string \<times> 'v obj) option" where
  "beforeCallOf (BeforeCall n a1 a2 s q result) = Some (n, s)"
| "beforeCallOf e = None"

fun afterCallOf :: "'v pipeline_event \<Rightarrow> (string \<times> 'v obj \<times> 'v obj \<times> 'v obj) option" where
  "afterCallOf (AfterCall n a1 a2 a3 p s q) = Some (n, p, s, q)"
| "afterCallOf e = None"

fun afterArguments :: "'v pipeline_event \<Rightarrow> addr list" where
  "afterArguments (AfterCall n a1 a2 a3 p s q) = [a1, a2, a3]"
| "afterArguments e = []"

fun coreArgument :: "'v pipeline_event \<Rightarrow> 'v obj option" where
  "coreArgument (CoreSet s) = Some s"
| "coreArgument (CorePatch p) = Some p"
| "coreArgument (CoreReset s) = Some s"
| "coreArgument e = None"

definition withBefore :: "'v Middleware list \<Rightarrow> 'v Middleware list" where
  "withBefore middleware = filter (\<lambda>mw. beforePatch mw \<noteq> None) middleware"

definition withAfter :: "'v Middleware list \<Rightarrow> 'v Middleware list" where
  "withAfter middleware = filter (\<lambda>mw. afterPatch mw \<noteq> None) middleware"

definition withoutAfter :: "'v Middleware \<Rightarrow> 'v Middleware" where
  "withoutAfter mw = mw\<lparr>afterPatch := None\<rparr>"

text \<open>A heap extends another when it keeps every object allocated there.\<close>

definition heap_extends :: "'v heap \<Rightarrow> 'v heap \<Rightarrow> bool" where
  "heap_extends h h' = (used h \<le> used h' \<and> (\<forall>a. a < used h \<longrightarrow> cells h' a = cells h a))"


text \<open>The calls a key subscriber set receives for one changed key.\<close>

definition keyCalls :: "('t, 'v, 'z) ScopedStore_scheme \<Rightarrow> 'v obj \<Rightarrow> key \<Rightarrow> (cbid \<times> 'v scoped_arg) list" where
  "keyCalls w state k =
     map (\<lambda>cb. (cb, ValueArg (map_of state k)))
       (set_values (case keySubscribers w k of None \<Rightarrow> [] | Some s \<Rightarrow> s))"

text \<open>The subscriber set of one key, as the pass over that key reads it.\<close>

definition keyEntries :: "key \<Rightarrow> ('t, 'v, 'z) ScopedStore_scheme \<Rightarrow> cbid jsset" where
  "keyEntries k w = (case keySubscribers w k of None \<Rightarrow> [] | Some s \<Rightarrow> s)"

section \<open>Concrete stores, buses and queues\<close>

definition standardConfig :: CalendarConfig where
  "standardConfig = \<lparr> daysPerSeason = 7,
                      seasons = [''Spring'', ''Summer'', ''Fall'', ''Winter''],
                      startDayOfWeek = None \<rparr>"

definition standardCalendar :: CalendarService where
  "standardCalendar = \<lparr> cs_daysPerSeason = 7,
                        cs_seasons = [''Spring'', ''Summer'', ''Fall'', ''Winter''],
                        cs_startDayOfWeek = 0,
                        cs_daysPerYear = 28 \<rparr>"

definition twoSubscribers :: "(string, string) ModalQueue" where
  "twoSubscribers = \<lparr> queue = [], subscribers = set_add 2 (set_add 1 []) \<rparr>"

definition itemA :: "(string, string) ModalQueueItem" where
  "itemA = \<lparr> item_id = ''A'', component = ''Mock'', props = None, onClose = Some 1 \<rparr>"




text \<open>
  A bus whose world also holds what the callback given to \<open>once\<close> has received. Listener
  \<open>cbA\<close> emits the event again when it receives 1; inside that nested emit it receives 2
  and does nothing.
\<close>

record 'e RecordingBus = "'e EventBus" +
  received :: "int list"

definition cbA :: cbid where "cbA = 1"

definition cbOnce :: cbid where "cbOnce = 2"

definition recordOnly :: "(int, string RecordingBus) callbacks" where
  "recordOnly cb data w =
     (if cb = cbOnce then (False, w\<lparr>received := received w @ [data]\<rparr>) else (False, w))"

definition reemitting :: "(int, string RecordingBus) callbacks" where
  "reemitting cb data w =
     (if cb = cbA \<and> data = 1 then (False, snd (emit recordOnly ''x'' 2 w))
      else recordOnly cb data w)"

definition emptyRecordingBus :: "string RecordingBus" where
  "emptyRecordingBus = \<lparr> listeners = (\<lambda>event. None), wrappersCreated = 0, received = [] \<rparr>"

definition busWithOnce :: "string RecordingBus" where
  "busWithOnce = snd (once ''x'' cbOnce (snd (on ''x'' (Plain cbA) emptyRecordingBus)))"

text \<open>The same bus after the function returned by \<open>once\<close> has been called.\<close>

definition busAfterCancel :: "string RecordingBus" where
  "busAfterCancel =
     unsubscribe (fst (once ''x'' cbOnce (snd (on ''x'' (Plain cbA) emptyRecordingBus)))) busWithOnce"

definition gameState :: "json obj" where
  "gameState = [(''player'', JObj [(''name'', JStr ''Hero''), (''health'', JNum 100)]),
                (''score'', JNum 0)]"

definition woundedState :: "json obj" where
  "woundedState = [(''player'', JObj [(''name'', JStr ''Hero''), (''health'', JNum 50)]),
                   (''score'', JNum 0)]"

text \<open>
  The player store of the tests with whole-state subscribers 1 and 2 and key subscribers 3
  (on health) and 4 (on name).
\<close>

definition playerStore :: "(json obj, json) ScopedStore" where
  "playerStore =
     (createScopedStore (scopeOver ''player'') gameState)
       \<lparr> scopedSubscribers := set_add 2 (set_add 1 []),
         keySubscribers := ((\<lambda>key. None)(''health'' \<mapsto> set_add 3 [], ''name'' \<mapsto> set_add 4 [])) \<rparr>"

definition initialState :: "json obj" where
  "initialState = [(''count'', JNum 0), (''name'', JStr ''test''), (''items'', JArr [])]"

definition doubling :: "json Middleware" where
  "doubling =
     \<lparr> name = ''double'',
       beforePatch = Some (\<lambda>state patch.
         \<lparr> stateLeft = state, patchLeft = patch,
           beforeResult = (case map_of patch ''count'' of
                             Some (JNum n) \<Rightarrow> BeforePatch (assign ''count'' (JNum (n * 2)) patch)
                           | _ \<Rightarrow> BeforeVoid) \<rparr>),
       afterPatch = None \<rparr>"

definition addingOne :: "json Middleware" where
  "addingOne =
     \<lparr> name = ''addOne'',
       beforePatch = Some (\<lambda>state patch.
         \<lparr> stateLeft = state, patchLeft = patch,
           beforeResult = (case map_of patch ''count'' of
                             Some (JNum n) \<Rightarrow> BeforePatch (assign ''count'' (JNum (n + 1)) patch)
                           | _ \<Rightarrow> BeforeVoid) \<rparr>),
       afterPatch = None \<rparr>"

text \<open>A heap with the initial state at address 0 and the patch \<open>{count: 5}\<close> at address 1.\<close>

definition startHeap :: "json heap" where
  "startHeap = \<lparr> cells = (\<lambda>a. [])(0 := initialState, 1 := [(''count'', JNum 5)]), used = 2 \<rparr>"

definition startStore :: "GameStore \<times> json heap" where
  "startStore = createGameStore 0 startHeap"

definition chainedPatch :: "json pipeline_event list \<times> GameStore \<times> json heap" where
  "chainedPatch = mw_patch [doubling, addingOne] 1 (fst startStore) (snd startStore)"




text \<open>
  A post-write hook that overwrites all three objects it receives and returns a value.
\<close>

definition tampering :: "json Middleware" where
  "tampering =
     \<lparr> name = ''tamper'',
       beforePatch = None,
       afterPatch = Some (\<lambda>prevState newState patch.
         \<lparr> prevLeft = [], newLeft = assign ''count'' (JNum 999) newState,
           appliedLeft = [(''count'', JNum 999)],
           afterResult = AfterReturn (Some (JNum 999)) \<rparr>) \<rparr>"

definition tamperedPatch :: "json pipeline_event list \<times> GameStore \<times> json heap" where
  "tamperedPatch = mw_write [tampering, tampering] (WritePatch 1) (fst startStore) (snd startStore)"

definition untamperedPatch :: "json pipeline_event list \<times> GameStore \<times> json heap" where
  "untamperedPatch = mw_write (map withoutAfter [tampering, tampering]) (WritePatch 1)
                       (fst startStore) (snd startStore)"





text \<open>
  A subscriber that, when called, unsubscribes subscriber 2, and one that subscribes a new
  subscriber 3.
\<close>

definition unsubscribingSecond ::
  "(('c, 'p, 'r) mq_arg, ('c, 'p, 'z) ModalQueue_scheme) callbacks" where
  "unsubscribingSecond cb a w = (if cb = 1 then (False, mq_unsubscribe 2 w) else (False, w))"

definition subscribingThird ::
  "(('c, 'p, 'r) mq_arg, ('c, 'p, 'z) ModalQueue_scheme) callbacks" where
  "subscribingThird cb a w =
     (if cb = 1
      then (False, snd (mq_subscribe
                          (idle :: (('c, 'p, 'r) mq_arg, ('c, 'p, 'z) ModalQueue_scheme) callbacks)
                          3 w))
      else (False, w))"

text \<open>
  The same for the scoped store: whole-state subscriber 1 unsubscribes whole-state subscriber
  2, or subscribes a new whole-state subscriber 5.
\<close>

definition scopedUnsubscribingSecond ::
  "('v scoped_arg, ('t, 'v, 'z) ScopedStore_scheme) callbacks" where
  "scopedUnsubscribingSecond cb a w =
     (if cb = 1 then (False, ss_unsubscribe 2 w) else (False, w))"

definition scopedSubscribingFifth ::
  "(json scoped_arg, (json obj, json, 'z) ScopedStore_scheme) callbacks" where
  "scopedSubscribingFifth cb a w =
     (if cb = 1
      then (False, snd (ss_subscribe (scopeOver ''player'')
                          (idle :: (json scoped_arg, (json obj, json, 'z) ScopedStore_scheme) callbacks)
                          5 w))
      else (False, w))"

text \<open>
  The player store with a second health subscriber, 6; health subscriber 3 unsubscribes
  health subscriber 6, or subscribes a new health subscriber 7.
\<close>

definition healthWatchers :: "(json obj, json) ScopedStore" where
  "healthWatchers =
     playerStore\<lparr>keySubscribers := (keySubscribers playerStore)(''health'' \<mapsto> set_add 6 (set_add 3 []))\<rparr>"

definition keyUnsubscribingSixth ::
  "('v scoped_arg, ('t, 'v, 'z) ScopedStore_scheme) callbacks" where
  "keyUnsubscribingSixth cb a w =
     (if cb = 3 then (False, ss_unsubscribeFromKey ''health'' 6 w) else (False, w))"

definition keySubscribingSeventh ::
  "(json scoped_arg, (json obj, json, 'z) ScopedStore_scheme) callbacks" where
  "keySubscribingSeventh cb a w =
     (if cb = 3
      then (False, snd (ss_subscribeToKey (scopeOver ''player'')
                          (idle :: (json scoped_arg, (json obj, json, 'z) ScopedStore_scheme) callbacks)
                          ''health'' 7 w))
      else (False, w))"

chapter \<open>Properties\<close>

section \<open>Sets and iteration\<close>

lemma set_has_values: "set_has x s = (x \<in> set (set_values s))"
  by (induction s) (auto simp: set_has_def set_values_def List.map_filter_simps split: option.splits)

lemma set_values_append: "set_values (s @ t) = set_values s @ set_values t"
  by (induction s) (auto simp: set_values_def List.map_filter_simps split: option.splits)

lemma distinct_set_values_empty: "distinct (set_values [])"
  by (simp add: set_values_def List.map_filter_simps)

lemma set_values_single: "set_values [Some x] = [x]"
  by (simp add: set_values_def List.map_filter_simps)

lemma distinct_set_add:
  "distinct (set_values s) \<Longrightarrow> distinct (set_values (set_add x s))"
  using set_has_values [of x s]
  by (auto simp: set_add_def set_values_append set_has_def set_values_single)

lemma set_values_delete: "set_values (set_delete x s) = removeAll x (set_values s)"
  by (induction s)
     (auto simp: set_delete_def set_values_def List.map_filter_simps split: option.splits)

lemma distinct_set_delete:
  "distinct (set_values s) \<Longrightarrow> distinct (set_values (set_delete x s))"
  by (simp add: set_values_delete distinct_removeAll)





text \<open>A walk whose callbacks leave the world alone visits every value of the set.\<close>

lemma forEach_unchanged:
  assumes "\<And>x. visit x w = (False, w)"
  shows "forEach entries visit i visited w
           = Some (False, visited @ set_values (drop i (entries w)), w)"
proof (induction "length (entries w) - i" arbitrary: i visited)
  case 0
  then show ?case
    by (subst forEach.simps) (simp add: set_values_def)
next
  case (Suc n)
  then have lt: "i < length (entries w)" by simp
  from Suc have n: "n = length (entries w) - Suc i" by simp
  have d: "drop i (entries w) = entries w ! i # drop (Suc i) (entries w)"
    using lt by (simp add: Cons_nth_drop_Suc)
  show ?case
  proof (cases "entries w ! i")
    case None
    then show ?thesis
      using lt Suc.hyps(1) [OF n, of visited] d
      by (subst forEach.simps) (simp add: set_values_def List.map_filter_simps)
  next
    case (Some x)
    then show ?thesis
      using lt Suc.hyps(1) [OF n, of "visited @ [x]"] d assms [of x]
      by (subst forEach.simps) (simp add: set_values_def List.map_filter_simps)
  qed
qed

text \<open>
  A walk whose callbacks do not throw and leave the set itself as it is visits exactly the
  values the set held at the start, whatever else they change.
\<close>

lemma forEach_stable:
  assumes keep: "\<And>x w. g (snd (visit x w)) = g w"
    and calm: "\<And>x w. \<not> fst (visit x w)"
  shows "\<exists>w'. forEach (\<lambda>w. e (g w)) visit i visited w
                  = Some (False, visited @ set_values (drop i (e (g w))), w')
              \<and> g w' = g w"
proof (induction "length (e (g w)) - i" arbitrary: i visited w)
  case 0
  then show ?case
    by (subst forEach.simps) (simp add: set_values_def)
next
  case (Suc n)
  then have lt: "i < length (e (g w))" by simp
  have d: "drop i (e (g w)) = e (g w) ! i # drop (Suc i) (e (g w))"
    using lt by (simp add: Cons_nth_drop_Suc)
  show ?case
  proof (cases "e (g w) ! i")
    case None
    from Suc have n: "n = length (e (g w)) - Suc i" by simp
    from Suc.hyps(1) [OF n, of visited] None lt d show ?thesis
      by (subst forEach.simps) (simp add: set_values_def List.map_filter_simps)
  next
    case (Some x)
    obtain threw w1 where v: "visit x w = (threw, w1)"
      by (cases "visit x w")
    from calm [of x w] v have nt: "\<not> threw" by simp
    from keep [of x w] v have k: "g w1 = g w" by simp
    from Suc k have n: "n = length (e (g w1)) - Suc i" by simp
    from Suc.hyps(1) [OF n, of "visited @ [x]"] obtain w' where
      r: "forEach (\<lambda>w. e (g w)) visit (Suc i) (visited @ [x]) w1
            = Some (False, (visited @ [x]) @ set_values (drop (Suc i) (e (g w1))), w')"
      and k': "g w' = g w1"
      by blast
    have "forEach (\<lambda>w. e (g w)) visit i visited w
            = Some (False, visited @ set_values (drop i (e (g w))), w')"
      using Some lt v nt r k d
      by (subst forEach.simps) (simp add: set_values_def List.map_filter_simps)
    with k k' show ?thesis by simp
  qed
qed

text \<open>
  The walk over a stretch of the set that its callbacks leave as it is: every value of the
  stretch is visited, and the walk goes on behind it.
\<close>

lemma forEach_segment:
  assumes j: "j \<le> length s"
    and keep: "\<And>x q. entries q = s \<Longrightarrow> Some x \<in> set (take j s)
                  \<Longrightarrow> entries (snd (visit x q)) = s \<and> \<not> fst (visit x q)"
  shows "entries w = s \<Longrightarrow> i \<le> j \<Longrightarrow>
           \<exists>w1. entries w1 = s
               \<and> forEach entries visit i visited w
                   = forEach entries visit j (visited @ set_values (take (j - i) (drop i s))) w1"
proof (induction "j - i" arbitrary: i visited w)
  case 0
  then show ?case
    by (auto simp: set_values_def List.map_filter_simps)
next
  case (Suc n)
  then have lt: "i < j" and n: "n = j - Suc i" and le: "Suc i \<le> j" by simp_all
  from lt j have il: "i < length s" by simp
  have d: "take (j - i) (drop i s) = s ! i # take (j - Suc i) (drop (Suc i) s)"
    using lt il by (metis Cons_nth_drop_Suc Suc_diff_Suc take_Suc_Cons)
  show ?case
  proof (cases "s ! i")
    case None
    from Suc.hyps(1) [OF n Suc.prems(1) le, of visited] obtain w1 where
      w1: "entries w1 = s"
      and r: "forEach entries visit (Suc i) visited w
                = forEach entries visit j (visited @ set_values (take (j - Suc i) (drop (Suc i) s))) w1"
      by blast
    have "forEach entries visit i visited w = forEach entries visit (Suc i) visited w"
      using None il Suc.prems(1) by (subst forEach.simps) simp
    with r w1 d None show ?thesis
      by (auto simp: set_values_def List.map_filter_simps)
  next
    case (Some x)
    have mem: "Some x \<in> set (take j s)"
      using Some lt il by (metis in_set_conv_nth length_take min.absorb2 j nth_take)
    obtain threw w0 where v: "visit x w = (threw, w0)"
      by (cases "visit x w")
    from keep [OF Suc.prems(1) mem] v have nt: "\<not> threw" and k: "entries w0 = s" by simp_all
    from Suc.hyps(1) [OF n k le, of "visited @ [x]"] obtain w1 where
      w1: "entries w1 = s"
      and r: "forEach entries visit (Suc i) (visited @ [x]) w0
                = forEach entries visit j
                    ((visited @ [x]) @ set_values (take (j - Suc i) (drop (Suc i) s))) w1"
      by blast
    have "forEach entries visit i visited w = forEach entries visit (Suc i) (visited @ [x]) w0"
      using Some il Suc.prems(1) v nt by (subst forEach.simps) simp
    with r w1 d Some show ?thesis
      by (auto simp: set_values_def List.map_filter_simps)
  qed
qed

text \<open>A walk over a set that is the same after every call visits all of it.\<close>

lemma forEach_frozen:
  assumes s: "entries w = s"
    and keep: "\<And>x q. entries q = s \<Longrightarrow> Some x \<in> set s
                  \<Longrightarrow> entries (snd (visit x q)) = s \<and> \<not> fst (visit x q)"
  shows "\<exists>w'. forEach entries visit i visited w
                  = Some (False, visited @ set_values (drop i s), w')
              \<and> entries w' = s"
proof (cases "i \<le> length s")
  case True
  from forEach_segment [of "length s" s entries visit w i visited] keep s True
  obtain w1 where w1: "entries w1 = s"
    and r: "forEach entries visit i visited w
              = forEach entries visit (length s)
                  (visited @ set_values (take (length s - i) (drop i s))) w1"
    by auto
  have "forEach entries visit (length s) (visited @ set_values (take (length s - i) (drop i s))) w1
          = Some (False, visited @ set_values (drop i s), w1)"
    using w1 by (subst forEach.simps) simp
  with r w1 show ?thesis by auto
next
  case False
  then have "forEach entries visit i visited w = Some (False, visited @ set_values (drop i s), w)"
    using s by (subst forEach.simps) (simp add: set_values_def List.map_filter_simps)
  with s show ?thesis by auto
qed

lemma set_values_Some: "set_values (Some x # s) = x # set_values s"
  by (simp add: set_values_def List.map_filter_simps)

lemma set_delete_idem: "set_delete b (set_delete b s) = set_delete b s"
  by (simp add: set_delete_def)

lemma set_delete_append: "set_delete b (s @ t) = set_delete b s @ set_delete b t"
  by (simp add: set_delete_def)

lemma set_add_idem: "set_add c (set_add c s) = set_add c s"
  by (simp add: set_add_def)

text \<open>
  One callback, \<open>a\<close>, deletes \<open>b\<close> from the set and the others leave the set alone:
  the walk visits the values in front of \<open>a\<close>, then \<open>a\<close>, then the values behind it
  except \<open>b\<close>.
\<close>

lemma forEach_skip:
  assumes s: "entries w = pre @ Some a # post"
    and first: "Some a \<notin> set pre"
    and del: "\<And>q. entries (snd (visit a q)) = set_delete b (entries q)"
    and keep: "\<And>x q. x \<noteq> a \<Longrightarrow> entries (snd (visit x q)) = entries q"
    and calm: "\<And>x q. \<not> fst (visit x q)"
  shows "\<exists>w'. forEach entries visit 0 [] w
                  = Some (False, set_values pre @ a # removeAll b (set_values post), w')
              \<and> entries w' = set_delete b (entries w)"
proof -
  let ?s = "pre @ Some a # post"
  let ?p = "length pre"
  have "\<exists>w1. entries w1 = ?s
            \<and> forEach entries visit 0 [] w
                = forEach entries visit ?p ([] @ set_values (take (?p - 0) (drop 0 ?s))) w1"
  proof (rule forEach_segment [where s = ?s and j = ?p])
    show "?p \<le> length ?s" by simp
    show "entries w = ?s" by (rule s)
    show "0 \<le> ?p" by simp
    fix x q
    assume q: "entries q = ?s" and x: "Some x \<in> set (take ?p ?s)"
    from x first have "x \<noteq> a" by auto
    with keep [of x q] calm [of x q] q
    show "entries (snd (visit x q)) = ?s \<and> \<not> fst (visit x q)" by simp
  qed
  then obtain w1 where w1: "entries w1 = ?s"
    and r1: "forEach entries visit 0 [] w = forEach entries visit ?p (set_values pre) w1"
    by auto
  obtain threw w2 where v: "visit a w1 = (threw, w2)"
    by (cases "visit a w1")
  let ?s2 = "set_delete b ?s"
  from del [of w1] calm [of a w1] v w1 have nt: "\<not> threw" and w2: "entries w2 = ?s2"
    by simp_all
  have r2: "forEach entries visit ?p (set_values pre) w1
              = forEach entries visit (Suc ?p) (set_values pre @ [a]) w2"
    using w1 v nt by (subst forEach.simps) simp
  have "\<exists>w'. forEach entries visit (Suc ?p) (set_values pre @ [a]) w2
                = Some (False, (set_values pre @ [a]) @ set_values (drop (Suc ?p) ?s2), w')
            \<and> entries w' = ?s2"
  proof (rule forEach_frozen [where entries = entries and s = "?s2", OF w2])
    fix x q
    assume q: "entries q = ?s2"
    show "entries (snd (visit x q)) = ?s2 \<and> \<not> fst (visit x q)"
    proof (cases "x = a")
      case True
      with del [of q] q calm [of x q] show ?thesis
        by (simp add: set_delete_idem)
    next
      case False
      with keep [of x q] q calm [of x q] show ?thesis by simp
    qed
  qed
  then obtain w' where
    r3: "forEach entries visit (Suc ?p) (set_values pre @ [a]) w2
           = Some (False, (set_values pre @ [a]) @ set_values (drop (Suc ?p) ?s2), w')"
    and w': "entries w' = ?s2"
    by blast
  have "drop (Suc ?p) ?s2 = set_delete b post"
    by (simp add: set_delete_def)
  with r1 r2 r3 w' s show ?thesis
    by (simp add: set_values_delete)
qed

text \<open>
  One callback, \<open>a\<close>, adds \<open>c\<close> to the set and the others leave the set alone: the
  walk visits the values of the set and then \<open>c\<close>, if it is new.
\<close>

lemma forEach_add:
  assumes a: "Some a \<in> set (entries w)"
    and add: "\<And>q. entries (snd (visit a q)) = set_add c (entries q)"
    and keep: "\<And>x q. x \<noteq> a \<Longrightarrow> entries (snd (visit x q)) = entries q"
    and calm: "\<And>x q. \<not> fst (visit x q)"
  shows "\<exists>w'. forEach entries visit 0 [] w
                  = Some (False, set_values (set_add c (entries w)), w')
              \<and> entries w' = set_add c (entries w)"
proof -
  from split_list_first [OF a] obtain pre post where
    s: "entries w = pre @ Some a # post" and first: "Some a \<notin> set pre"
    by blast
  let ?s = "pre @ Some a # post"
  let ?p = "length pre"
  have "\<exists>w1. entries w1 = ?s
            \<and> forEach entries visit 0 [] w
                = forEach entries visit ?p ([] @ set_values (take (?p - 0) (drop 0 ?s))) w1"
  proof (rule forEach_segment [where s = ?s and j = ?p])
    show "?p \<le> length ?s" by simp
    show "entries w = ?s" by (rule s)
    show "0 \<le> ?p" by simp
    fix x q
    assume q: "entries q = ?s" and x: "Some x \<in> set (take ?p ?s)"
    from x first have "x \<noteq> a" by auto
    with keep [of x q] calm [of x q] q
    show "entries (snd (visit x q)) = ?s \<and> \<not> fst (visit x q)" by simp
  qed
  then obtain w1 where w1: "entries w1 = ?s"
    and r1: "forEach entries visit 0 [] w = forEach entries visit ?p (set_values pre) w1"
    by auto
  obtain threw w2 where v: "visit a w1 = (threw, w2)"
    by (cases "visit a w1")
  let ?s2 = "set_add c ?s"
  from add [of w1] calm [of a w1] v w1 have nt: "\<not> threw" and w2: "entries w2 = ?s2"
    by simp_all
  have r2: "forEach entries visit ?p (set_values pre) w1
              = forEach entries visit (Suc ?p) (set_values pre @ [a]) w2"
    using w1 v nt by (subst forEach.simps) simp
  have "\<exists>w'. forEach entries visit (Suc ?p) (set_values pre @ [a]) w2
                = Some (False, (set_values pre @ [a]) @ set_values (drop (Suc ?p) ?s2), w')
            \<and> entries w' = ?s2"
  proof (rule forEach_frozen [where entries = entries and s = "?s2", OF w2])
    fix x q
    assume q: "entries q = ?s2"
    show "entries (snd (visit x q)) = ?s2 \<and> \<not> fst (visit x q)"
    proof (cases "x = a")
      case True
      with add [of q] q calm [of x q] show ?thesis
        by (simp add: set_add_idem)
    next
      case False
      with keep [of x q] q calm [of x q] show ?thesis by simp
    qed
  qed
  then obtain w' where
    r3: "forEach entries visit (Suc ?p) (set_values pre @ [a]) w2
           = Some (False, (set_values pre @ [a]) @ set_values (drop (Suc ?p) ?s2), w')"
    and w': "entries w' = ?s2"
    by blast
  have "set_values pre @ [a] @ set_values (drop (Suc ?p) ?s2) = set_values ?s2"
    by (simp add: set_add_def set_values_append set_values_single set_values_Some)
  with r1 r2 r3 w' s show ?thesis
    by simp
qed

text \<open>The walk throws only if a callback does.\<close>

lemma forEach_returns_normally:
  fixes entries :: "'w \<Rightarrow> 'a jsset"
  assumes calm: "\<forall>x q. \<not> fst (visit x q)"
    and r: "forEach entries visit i visited w = Some y"
  shows "\<not> fst y"
proof -
  have "(\<forall>x q. \<not> fst (visit x q)) \<longrightarrow> \<not> fst y"
  proof (rule forEach.raw_induct
      [where P = "\<lambda>entries visit i visited w y. (\<forall>x q. \<not> fst (visit x q)) \<longrightarrow> \<not> fst y",
        OF _ r])
    fix walk :: "('w \<Rightarrow> 'a jsset) \<Rightarrow> ('a \<Rightarrow> 'w \<Rightarrow> bool \<times> 'w) \<Rightarrow> nat \<Rightarrow> 'a list \<Rightarrow> 'w
                   \<Rightarrow> (bool \<times> 'a list \<times> 'w) option"
    fix entries :: "'w \<Rightarrow> 'a jsset" and visit :: "'a \<Rightarrow> 'w \<Rightarrow> bool \<times> 'w"
    fix i :: nat and visited :: "'a list" and w :: 'w and y :: "bool \<times> 'a list \<times> 'w"
    assume ih: "\<And>entries visit i visited w y. walk entries visit i visited w = Some y
                  \<Longrightarrow> (\<forall>x q. \<not> fst (visit x q)) \<longrightarrow> \<not> fst y"
      and step: "(if i < length (entries w)
                  then case entries w ! i of
                         None \<Rightarrow> walk entries visit (Suc i) visited w
                       | Some x \<Rightarrow>
                           (case visit x w of
                              (threw, w') \<Rightarrow>
                                if threw then Some (True, visited @ [x], w')
                                else walk entries visit (Suc i) (visited @ [x]) w')
                  else Some (False, visited, w)) = Some y"
    show "(\<forall>x q. \<not> fst (visit x q)) \<longrightarrow> \<not> fst y"
    proof
      assume c: "\<forall>x q. \<not> fst (visit x q)"
      show "\<not> fst y"
      proof (cases "i < length (entries w)")
        case False
        with step show ?thesis by auto
      next
        case lt: True
        show ?thesis
        proof (cases "entries w ! i")
          case None
          with step lt have "walk entries visit (Suc i) visited w = Some y" by simp
          from ih [OF this] c show ?thesis by simp
        next
          case (Some x)
          obtain threw w' where v: "visit x w = (threw, w')" by (cases "visit x w")
          from c v have nt: "\<not> threw" by (metis fst_conv)
          with step lt Some v have "walk entries visit (Suc i) (visited @ [x]) w' = Some y"
            by simp
          from ih [OF this] c show ?thesis by simp
        qed
      qed
    qed
  qed
  with calm show ?thesis by simp
qed




section \<open>Objects\<close>



lemma assign_plain: "arrayIndex k = None \<Longrightarrow> assign k v a = AList.update k v a"
  by (simp add: assign_def)

lemma arrayIndex_letter: "map_of digits c = None \<Longrightarrow> arrayIndex (c # cs) = None"
  by (simp add: arrayIndex_def)



section \<open>Calendar service\<close>

lemma normalizeDay_nonpositive: "day \<le> 0 \<Longrightarrow> normalizeDay day = normalizeDay 1"
  by (simp add: normalizeDay_def)

lemma getSeasonIndex_day_one:
  assumes "createCalendarService config = Inr c"
  shows "getSeasonIndex c 1 = 0"
  using assms
  by (auto simp: createCalendarService_def getSeasonIndex_def normalizeDay_def js_rem_def
      split: if_splits)

lemma getSeason_day_one:
  assumes "createCalendarService config = Inr c"
  shows "getSeason c 1 = Some (hd (seasons config))"
proof -
  from assms have ne: "cs_seasons c \<noteq> []" and eq: "cs_seasons c = seasons config"
    by (auto simp: createCalendarService_def split: if_splits)
  then show ?thesis
    using getSeasonIndex_day_one [OF assms]
    by (simp add: getSeason_def hd_conv_nth)
qed

text \<open>
  C9. For a calendar service built from any accepted configuration and every integer
  day \<open>\<le> 0\<close>, each of the six queries returns what it returns for day 1 (the day is
  clamped to 1). The queries have no throwing branch; \<open>getSeason\<close> moreover reads
  inside the season array, so it returns the first season name and not \<open>undefined\<close>.
\<close>

theorem calendar_nonpositive_day_clamped:
  assumes "createCalendarService config = Inr c" and "day \<le> 0"
  shows "getSeason c day = getSeason c 1
       \<and> getSeasonIndex c day = getSeasonIndex c 1
       \<and> getDayInSeason c day = getDayInSeason c 1
       \<and> getYear c day = getYear c 1
       \<and> getSeasonProgress c day = getSeasonProgress c 1
       \<and> getDayOfWeek c day = getDayOfWeek c 1
       \<and> getSeason c day = Some (hd (seasons config))"
proof -
  have n: "normalizeDay day = normalizeDay 1"
    using assms(2) by (rule normalizeDay_nonpositive)
  have i: "getSeasonIndex c day = getSeasonIndex c 1"
    by (simp add: getSeasonIndex_def n)
  have s: "getSeason c day = getSeason c 1"
    by (simp add: getSeason_def i)
  have d: "getDayInSeason c day = getDayInSeason c 1"
    by (simp add: getDayInSeason_def n)
  have y: "getYear c day = getYear c 1"
    by (simp add: getYear_def n)
  have p: "getSeasonProgress c day = getSeasonProgress c 1"
    by (simp add: getSeasonProgress_def d)
  have w: "getDayOfWeek c day = getDayOfWeek c 1"
    by (simp add: getDayOfWeek_def n)
  from i s d y p w getSeason_day_one [OF assms(1)] show ?thesis
    by simp
qed

lemma standardCalendar_created: "createCalendarService standardConfig = Inr standardCalendar"
  by (simp add: createCalendarService_def standardConfig_def standardCalendar_def)

text \<open>The calendar of the tests (four seasons of seven days) at day -3.\<close>

theorem calendar_nonpositive_day_clamped_witness:
  "createCalendarService standardConfig = Inr standardCalendar \<and> (-3::int) \<le> 0
   \<and> getSeason standardCalendar (-3) = Some ''Spring''
   \<and> getYear standardCalendar (-3) = getYear standardCalendar 1
   \<and> getDayOfWeek standardCalendar (-3) = getDayOfWeek standardCalendar 1"
proof -
  have h: "(-3::int) \<le> 0" by simp
  have s: "hd (seasons standardConfig) = ''Spring''"
    by (simp add: standardConfig_def)
  note t = calendar_nonpositive_day_clamped [OF standardCalendar_created h]
  from t have "getSeason standardCalendar (-3) = Some (hd (seasons standardConfig))"
    by blast
  then have a: "getSeason standardCalendar (-3) = Some ''Spring''"
    unfolding s .
  from t have b: "getYear standardCalendar (-3) = getYear standardCalendar 1"
    by blast
  from t have c: "getDayOfWeek standardCalendar (-3) = getDayOfWeek standardCalendar 1"
    by blast
  from standardCalendar_created h a b c show ?thesis
    by blast
qed

section \<open>Modal queue\<close>


lemma mq_notify_quiet:
  assumes "quiet env"
  shows "mq_notify env w
           = Some (map (\<lambda>cb. (cb, QueueArg (queue w))) (set_values (subscribers w)), w)"
proof -
  have "\<And>x. (\<lambda>cb w1. (False, snd (env cb (QueueArg (queue w)) w1))) x w = (False, w)"
    using assms by (simp add: quiet_def)
  from forEach_unchanged [of "\<lambda>cb w1. (False, snd (env cb (QueueArg (queue w)) w1))" w, OF this]
  show ?thesis
    by (simp add: mq_notify_def)
qed

lemma mq_pop_empty_quiet:
  assumes "quiet env" and "queue w = []"
  shows "mq_pop env result w
           = Some (map (\<lambda>cb. (cb, QueueArg [])) (set_values (subscribers w)), w)"
  using assms mq_notify_quiet [OF assms(1), of w]
  by (simp add: mq_pop_def)




lemma mq_notify_steady:
  assumes "\<And>cb. leaves g env cb"
    and "\<And>x. subscribers x = e (g x)"
  shows "\<exists>w'. mq_notify env w
                  = Some (map (\<lambda>cb. (cb, QueueArg (queue w))) (set_values (subscribers w)), w')
              \<and> g w' = g w"
proof -
  let ?visit = "\<lambda>cb w1. (False, snd (env cb (QueueArg (queue w)) w1))"
  have keep: "\<And>x q. g (snd (?visit x q)) = g q"
    using assms(1) by (simp add: leaves_def)
  have calm: "\<And>x q. \<not> fst (?visit x q)"
    by simp
  have s: "subscribers = (\<lambda>x. e (g x))"
    by (rule ext) (rule assms(2))
  from forEach_stable [of g ?visit e 0 "[]" w, OF keep calm]
  show ?thesis
    by (auto simp: mq_notify_def s Let_def)
qed

lemma mq_notify_skip:
  assumes "deletes subscribers env a b"
    and "\<And>cb. cb \<noteq> a \<Longrightarrow> leaves subscribers env cb"
    and "subscribers w = pre @ Some a # post"
    and "Some a \<notin> set pre"
  shows "\<exists>w'. mq_notify env w
                  = Some (map (\<lambda>cb. (cb, QueueArg (queue w)))
                            (set_values pre @ a # removeAll b (set_values post)), w')"
proof -
  let ?visit = "\<lambda>cb w1. (False, snd (env cb (QueueArg (queue w)) w1))"
  have del: "\<And>q. subscribers (snd (?visit a q)) = set_delete b (subscribers q)"
    using assms(1) by (simp add: deletes_def)
  have keep: "\<And>x q. x \<noteq> a \<Longrightarrow> subscribers (snd (?visit x q)) = subscribers q"
    using assms(2) by (simp add: leaves_def)
  have calm: "\<And>x q. \<not> fst (?visit x q)"
    by simp
  from forEach_skip [of subscribers w pre a post ?visit b, OF assms(3,4) del keep calm]
  show ?thesis
    by (auto simp: mq_notify_def Let_def)
qed

lemma mq_notify_add:
  assumes "adds subscribers env a c"
    and "\<And>cb. cb \<noteq> a \<Longrightarrow> leaves subscribers env cb"
    and "Some a \<in> set (subscribers w)"
  shows "\<exists>w'. mq_notify env w
                  = Some (map (\<lambda>cb. (cb, QueueArg (queue w)))
                            (set_values (set_add c (subscribers w))), w')"
proof -
  let ?visit = "\<lambda>cb w1. (False, snd (env cb (QueueArg (queue w)) w1))"
  have add: "\<And>q. subscribers (snd (?visit a q)) = set_add c (subscribers q)"
    using assms(1) by (simp add: adds_def)
  have keep: "\<And>x q. x \<noteq> a \<Longrightarrow> subscribers (snd (?visit x q)) = subscribers q"
    using assms(2) by (simp add: leaves_def)
  have calm: "\<And>x q. \<not> fst (?visit x q)"
    by simp
  from forEach_add [of a subscribers w ?visit c, OF assms(3) add keep calm]
  show ?thesis
    by (auto simp: mq_notify_def Let_def)
qed


lemma twoSubscribers_eval: "twoSubscribers = \<lparr> queue = [], subscribers = [Some 1, Some 2] \<rparr>"
  by (simp add: twoSubscribers_def set_add_def)

lemma twoSubscribers_values: "set_values (subscribers twoSubscribers) = [1, 2]"
  by (simp add: twoSubscribers_eval set_values_def List.map_filter_simps)







section \<open>Event bus\<close>

lemma emitLoop_calls: "fst (emitLoop env data snapshot w) = map (\<lambda>l. (l, data)) snapshot"
proof (induction snapshot arbitrary: w)
  case Nil
  show ?case by simp
next
  case (Cons l snapshot)
  obtain threw w1 where i: "invoke env l data w = (threw, w1)"
    by (cases "invoke env l data w")
  obtain calls w2 where r: "emitLoop env data snapshot w1 = (calls, w2)"
    by (cases "emitLoop env data snapshot w1")
  from Cons.IH [of w1] r have "calls = map (\<lambda>l. (l, data)) snapshot"
    by simp
  with i r show ?case
    by simp
qed

lemma emit_invokes_snapshot:
  "listeners w event = Some s \<Longrightarrow> fst (emit env event data w) = map (\<lambda>l. (l, data)) (set_values s)"
  by (simp add: emit_def emitLoop_calls)

lemma busWithOnce_listeners:
  "listeners busWithOnce ''x'' = Some [Some (Plain cbA), Some (OnceWrapper 0 ''x'' cbOnce)]"
  by (simp add: busWithOnce_def once_def on_def emptyRecordingBus_def set_add_def Let_def)

lemma busWithOnce_received: "received busWithOnce = []"
  by (simp add: busWithOnce_def once_def on_def emptyRecordingBus_def Let_def)

text \<open>
  After \<open>off\<close>, an emit of the event does not call the removed listener. This is the
  state in which the wrapper of \<open>once\<close> calls its callback, and the state after the
  function returned by \<open>once\<close> has been called.
\<close>

lemma emit_after_off:
  assumes "listeners w event = Some s"
  shows "fst (emit env event data (off event l w))
           = map (\<lambda>l'. (l', data)) (removeAll l (set_values s))"
proof -
  have "listeners (off event l w) event = Some (set_delete l s)"
    using assms by (simp add: off_def)
  from emit_invokes_snapshot [OF this] show ?thesis
    by (simp add: set_values_delete)
qed

text \<open>Two emits one after the other run the callback once, with the data of the first.\<close>

lemma once_runs_once_over_two_emits:
  "received (snd (emit recordOnly ''x'' 2 (snd (emit recordOnly ''x'' 1 busWithOnce)))) = [1]"
  by (simp add: emit_def busWithOnce_listeners busWithOnce_received set_values_def
      List.map_filter_simps invoke_def recordOnly_def cbA_def cbOnce_def off_def set_delete_def)

lemma once_cancelled_before_emit_never_runs:
  "received (snd (emit recordOnly ''x'' 1 busAfterCancel)) = []"
  by (simp add: busAfterCancel_def unsubscribe_def once_def on_def emptyRecordingBus_def
      emit_def busWithOnce_listeners busWithOnce_received set_values_def set_add_def
      List.map_filter_simps invoke_def recordOnly_def cbA_def cbOnce_def off_def set_delete_def
      Let_def)

text \<open>
  C7. \<open>once(event, cb)\<close> is documented to call \<open>cb\<close> once. On a bus where a listener
  registered before the \<open>once\<close> emits the event again while it is being called, one
  \<open>emit\<close> with data 1 runs the callback twice: first inside the nested emit with data 2,
  then again from the outer snapshot with data 1. The wrapper unsubscribes itself but is
  still in the snapshot taken by the outer emit, and nothing stops its second call.
\<close>

theorem once_callback_runs_twice_on_reentrant_emit:
  "received (snd (emit reemitting ''x'' 1 busWithOnce)) = [2, 1]"
  by (simp add: emit_def busWithOnce_listeners busWithOnce_received set_values_def
      List.map_filter_simps invoke_def reemitting_def recordOnly_def cbA_def cbOnce_def
      off_def set_delete_def)

section \<open>Scoped store\<close>






lemma keyEntries_fun:
  "(\<lambda>w1. case keySubscribers w1 k of None \<Rightarrow> [] | Some s \<Rightarrow> s) = keyEntries k"
  by (rule ext) (simp add: keyEntries_def)


text \<open>
  The two passes of the scoped store with callbacks that return: the subscribers they call when
  the callbacks leave the set alone (together with anything else, \<open>g\<close>, that the
  callbacks leave alone), when one callback unsubscribes a subscriber, and when one callback
  subscribes a new one.
\<close>

lemma ss_notify_steady:
  assumes "returns env"
    and "\<And>cb. leaves g env cb"
    and "\<And>x. scopedSubscribers x = e (g x)"
  shows "\<exists>w'. ss_notify env state w
                  = Some (False, map (\<lambda>cb. (cb, StateArg state)) (set_values (scopedSubscribers w)), w')
              \<and> g w' = g w"
proof -
  let ?visit = "\<lambda>cb w1. env cb (StateArg state) w1"
  have keep: "\<And>x q. g (snd (?visit x q)) = g q"
    using assms(2) by (simp add: leaves_def)
  have calm: "\<And>x q. \<not> fst (?visit x q)"
    using assms(1) by (simp add: returns_def)
  have s: "scopedSubscribers = (\<lambda>x. e (g x))"
    by (rule ext) (rule assms(3))
  from forEach_stable [of g ?visit e 0 "[]" w, OF keep calm]
  show ?thesis
    by (auto simp: ss_notify_def deepClone_def s)
qed

lemma ss_notify_skip:
  assumes "returns env"
    and "deletes scopedSubscribers env a b"
    and "\<And>cb. cb \<noteq> a \<Longrightarrow> leaves scopedSubscribers env cb"
    and "scopedSubscribers w = pre @ Some a # post"
    and "Some a \<notin> set pre"
  shows "\<exists>w'. ss_notify env state w
                  = Some (False,
                      map (\<lambda>cb. (cb, StateArg state))
                        (set_values pre @ a # removeAll b (set_values post)), w')"
proof -
  let ?visit = "\<lambda>cb w1. env cb (StateArg state) w1"
  have del: "\<And>q. scopedSubscribers (snd (?visit a q)) = set_delete b (scopedSubscribers q)"
    using assms(2) by (simp add: deletes_def)
  have keep: "\<And>x q. x \<noteq> a \<Longrightarrow> scopedSubscribers (snd (?visit x q)) = scopedSubscribers q"
    using assms(3) by (simp add: leaves_def)
  have calm: "\<And>x q. \<not> fst (?visit x q)"
    using assms(1) by (simp add: returns_def)
  from forEach_skip [of scopedSubscribers w pre a post ?visit b, OF assms(4,5) del keep calm]
  show ?thesis
    by (auto simp: ss_notify_def deepClone_def)
qed

lemma ss_notify_add:
  assumes "returns env"
    and "adds scopedSubscribers env a c"
    and "\<And>cb. cb \<noteq> a \<Longrightarrow> leaves scopedSubscribers env cb"
    and "Some a \<in> set (scopedSubscribers w)"
  shows "\<exists>w'. ss_notify env state w
                  = Some (False,
                      map (\<lambda>cb. (cb, StateArg state))
                        (set_values (set_add c (scopedSubscribers w))), w')"
proof -
  let ?visit = "\<lambda>cb w1. env cb (StateArg state) w1"
  have add: "\<And>q. scopedSubscribers (snd (?visit a q)) = set_add c (scopedSubscribers q)"
    using assms(2) by (simp add: adds_def)
  have keep: "\<And>x q. x \<noteq> a \<Longrightarrow> scopedSubscribers (snd (?visit x q)) = scopedSubscribers q"
    using assms(3) by (simp add: leaves_def)
  have calm: "\<And>x q. \<not> fst (?visit x q)"
    using assms(1) by (simp add: returns_def)
  from forEach_add [of a scopedSubscribers w ?visit c, OF assms(4) add keep calm]
  show ?thesis
    by (auto simp: ss_notify_def deepClone_def)
qed

text \<open>A pass whose callbacks return does not throw.\<close>

lemma ss_notify_returns:
  assumes "returns env" and "ss_notify env state w = Some (threw, calls, w')"
  shows "\<not> threw"
proof -
  let ?visit = "\<lambda>cb w1. env cb (StateArg state) w1"
  have calm: "\<forall>x q. \<not> fst (?visit x q)"
    using assms(1) by (simp add: returns_def)
  from assms(2) obtain seen where
    "forEach scopedSubscribers ?visit 0 [] w = Some (threw, seen, w')"
    by (auto simp: ss_notify_def deepClone_def)
  from forEach_returns_normally [OF calm this] show ?thesis
    by simp
qed

lemma key_pass_returns:
  assumes "returns env"
  shows "notifyKeySubscribers env changedKeys state w = Some (threw, calls, w') \<Longrightarrow> \<not> threw"
proof (induction changedKeys arbitrary: w calls)
  case Nil
  then show ?case by simp
next
  case (Cons k changedKeys)
  show ?case
  proof (cases "keySubscribers w k")
    case None
    with Cons.prems have "notifyKeySubscribers env changedKeys state w = Some (threw, calls, w')"
      by simp
    then show ?thesis by (rule Cons.IH)
  next
    case (Some subs)
    let ?visit = "\<lambda>cb w1. env cb (ValueArg (map_of state k)) w1"
    have calm: "\<forall>x q. \<not> fst (?visit x q)"
      using assms by (simp add: returns_def)
    from Cons.prems Some obtain t seen w1 where
      f: "forEach (\<lambda>w1. case keySubscribers w1 k of None \<Rightarrow> [] | Some s \<Rightarrow> s) ?visit 0 [] w
            = Some (t, seen, w1)"
      by (auto simp: Let_def split: option.splits prod.splits)
    from forEach_returns_normally [OF calm f] have nt: "\<not> t"
      by simp
    from Cons.prems Some f nt obtain later where
      "notifyKeySubscribers env changedKeys state w1 = Some (threw, later, w')"
      by (auto simp: Let_def split: option.splits prod.splits)
    then show ?thesis by (rule Cons.IH)
  qed
qed

lemma key_pass_steady:
  assumes "returns env"
    and "\<And>cb. leaves g env cb"
    and "\<And>x. keySubscribers x = kf (g x)"
  shows "\<exists>w'. notifyKeySubscribers env changedKeys state w
                  = Some (False, concat (map (keyCalls w state) changedKeys), w')
              \<and> g w' = g w"
proof (induction changedKeys arbitrary: w)
  case Nil
  show ?case by simp
next
  case (Cons k changedKeys)
  show ?case
  proof (cases "keySubscribers w k")
    case None
    from Cons [of w] None show ?thesis
      by (simp add: keyCalls_def set_values_def)
  next
    case (Some subs)
    let ?visit = "\<lambda>cb w1. env cb (ValueArg (map_of state k)) w1"
    let ?e = "\<lambda>m. case kf m k of None \<Rightarrow> [] | Some s \<Rightarrow> s"
    have keep': "\<And>x q. g (snd (?visit x q)) = g q"
      using assms(2) by (simp add: leaves_def)
    have calm': "\<And>x q. \<not> fst (?visit x q)"
      using assms(1) by (simp add: returns_def)
    have en: "(\<lambda>w1. case keySubscribers w1 k of None \<Rightarrow> [] | Some s \<Rightarrow> s) = (\<lambda>x. ?e (g x))"
      by (rule ext) (simp add: assms(3))
    have ew: "?e (g w) = subs"
      using Some assms(3) [of w] by simp
    from forEach_stable [of g ?visit ?e 0 "[]" w, OF keep' calm']
    obtain w1 where
      f0: "forEach (\<lambda>x. ?e (g x)) ?visit 0 [] w
            = Some (False, [] @ set_values (drop 0 (?e (g w))), w1)"
      and k1: "g w1 = g w"
      by blast
    have f: "forEach (\<lambda>w1. case keySubscribers w1 k of None \<Rightarrow> [] | Some s \<Rightarrow> s) ?visit 0 [] w
            = Some (False, set_values subs, w1)"
      unfolding en using f0 ew by simp
    from Cons [of w1] obtain w' where
      r: "notifyKeySubscribers env changedKeys state w1
            = Some (False, concat (map (keyCalls w1 state) changedKeys), w')"
      and k2: "g w' = g w1"
      by blast
    have c: "keyCalls w1 state = keyCalls w state"
      by (rule ext) (simp add: keyCalls_def assms(3) k1)
    have "notifyKeySubscribers env (k # changedKeys) state w
            = Some (False, concat (map (keyCalls w state) (k # changedKeys)), w')"
      using Some f r c by (simp add: keyCalls_def)
    with k1 k2 show ?thesis by simp
  qed
qed

lemma key_pass_skip:
  assumes "returns env"
    and "deletes (keyEntries k) env a b"
    and "\<And>cb. cb \<noteq> a \<Longrightarrow> leaves (keyEntries k) env cb"
    and "keySubscribers w k = Some (pre @ Some a # post)"
    and "Some a \<notin> set pre"
  shows "\<exists>w'. notifyKeySubscribers env [k] state w
                  = Some (False,
                      map (\<lambda>cb. (cb, ValueArg (map_of state k)))
                        (set_values pre @ a # removeAll b (set_values post)), w')"
proof -
  let ?visit = "\<lambda>cb w1. env cb (ValueArg (map_of state k)) w1"
  have del: "\<And>q. keyEntries k (snd (?visit a q)) = set_delete b (keyEntries k q)"
    using assms(2) by (simp add: deletes_def)
  have keep: "\<And>x q. x \<noteq> a \<Longrightarrow> keyEntries k (snd (?visit x q)) = keyEntries k q"
    using assms(3) by (simp add: leaves_def)
  have calm: "\<And>x q. \<not> fst (?visit x q)"
    using assms(1) by (simp add: returns_def)
  have s: "keyEntries k w = pre @ Some a # post"
    using assms(4) by (simp add: keyEntries_def)
  from forEach_skip [of "keyEntries k" w pre a post ?visit b, OF s assms(5) del keep calm]
  show ?thesis
    using assms(4) by (auto simp: keyEntries_fun Let_def)
qed

lemma key_pass_add:
  assumes "returns env"
    and "adds (keyEntries k) env a c"
    and "\<And>cb. cb \<noteq> a \<Longrightarrow> leaves (keyEntries k) env cb"
    and "keySubscribers w k = Some s"
    and "Some a \<in> set s"
  shows "\<exists>w'. notifyKeySubscribers env [k] state w
                  = Some (False,
                      map (\<lambda>cb. (cb, ValueArg (map_of state k))) (set_values (set_add c s)), w')"
proof -
  let ?visit = "\<lambda>cb w1. env cb (ValueArg (map_of state k)) w1"
  have add: "\<And>q. keyEntries k (snd (?visit a q)) = set_add c (keyEntries k q)"
    using assms(2) by (simp add: adds_def)
  have keep: "\<And>x q. x \<noteq> a \<Longrightarrow> keyEntries k (snd (?visit x q)) = keyEntries k q"
    using assms(3) by (simp add: leaves_def)
  have calm: "\<And>x q. \<not> fst (?visit x q)"
    using assms(1) by (simp add: returns_def)
  have s: "keyEntries k w = s"
    using assms(4) by (simp add: keyEntries_def)
  from assms(5) s have a: "Some a \<in> set (keyEntries k w)"
    by simp
  from forEach_add [of a "keyEntries k" w ?visit c, OF a add keep calm]
  show ?thesis
    using assms(4) s by (auto simp: keyEntries_fun Let_def)
qed













lemma playerStore_fields:
  "parentState playerStore = gameState"
  "lastScopedState playerStore = [(''name'', JStr ''Hero''), (''health'', JNum 100)]"
  "set_values (scopedSubscribers playerStore) = [1, 2]"
  "scopedSubscribers playerStore = [Some 1, Some 2]"
  "keySubscribers playerStore ''health'' = Some [Some 3]"
  "keySubscribers playerStore ''name'' = Some [Some 4]"
  by (simp_all add: playerStore_def createScopedStore_def scopeOver_def gameState_def
      deepClone_def set_add_def set_values_def List.map_filter_simps)

lemma select_player:
  "select (scopeOver ''player'') gameState = [(''name'', JStr ''Hero''), (''health'', JNum 100)]"
  "select (scopeOver ''player'') woundedState = [(''name'', JStr ''Hero''), (''health'', JNum 50)]"
  by (simp_all add: scopeOver_def gameState_def woundedState_def)

lemma changed_health:
  "getChangedKeys [(''name'', JStr ''Hero''), (''health'', JNum 100)]
                  [(''name'', JStr ''Hero''), (''health'', JNum 50)] = [''health'']"
  by (simp add: getChangedKeys_def keys_def set_add_def set_values_def List.map_filter_simps)





lemma leaves_idle: "leaves var idle cb"
  by (simp add: leaves_def idle_def)

lemma returns_idle: "returns idle"
  by (simp add: returns_def idle_def)





text \<open>
  C5. Callback errors are to be isolated at the call site, so that sibling callbacks of the
  same pass still run. In the scoped store they are not: with whole-state subscribers 1 and
  2 and a health subscriber 3, where 1 throws, a scoped patch of the health calls subscriber 1
  only. The exception ends \<open>forEach\<close> and leaves \<open>notify\<close> and the handler, so
  subscriber 2 and the key subscriber are never called, although the state has changed.
\<close>

theorem scoped_subscriber_throw_skips_siblings:
  "ss_patch (scopeOver ''player'') firstThrows [(''health'', JNum 50)] playerStore
     = Some ([(1, StateArg [(''name'', JStr ''Hero''), (''health'', JNum 50)])],
             playerStore\<lparr> parentState := woundedState,
                           lastScopedState := [(''name'', JStr ''Hero''), (''health'', JNum 50)] \<rparr>)"
  by (simp add: ss_patch_def ss_set_def parent_set_def parentHandler_def ss_notify_def
      playerStore_fields select_player changed_health deepClone_def spread_def assign_def arrayIndex_def digits_def scopeOver_def
      gameState_def woundedState_def forEach.simps firstThrows_def Let_def)

section \<open>Notification passes\<close>

text \<open>
  The modal queue walks its live subscriber set. Subscribers 1 and 2 are registered when
  \<open>push\<close> starts its pass; subscriber 1 unsubscribes subscriber 2, which has not been
  called yet, and the pass never calls it.
\<close>

theorem modal_notify_skips_unsubscribed_subscriber:
  "set_values (subscribers twoSubscribers) = [1, 2]
   \<and> mq_push unsubscribingSecond itemA twoSubscribers
       = Some ([(1, QueueArg [itemA])], \<lparr> queue = [itemA], subscribers = [Some 1, None] \<rparr>)"
  by (simp add: twoSubscribers_values)
     (simp add: twoSubscribers_eval mq_push_def mq_notify_def forEach.simps
        unsubscribingSecond_def mq_unsubscribe_def set_delete_def)

text \<open>
  C4, as amended. An event-bus \<open>emit\<close> calls exactly the listeners registered for the
  event when it began, each once and in registration order, whatever the callbacks do. The
  modal queue's pass and the scoped store's whole-state and per-key passes walk the live
  subscriber set instead.
  \<^item> The walk itself never throws: a pass whose callbacks return can only end normally,
    however they change the set. The pass of the modal queue, which catches what a callback
    throws, is such a pass.
  \<^item> Provided no callback changes the subscriber set during the pass (and, in the scoped
    store, none throws), the pass calls exactly the subscribers registered when it began,
    each once and in registration order.
  \<^item> When the callback of one subscriber \<open>a\<close> unsubscribes a subscriber \<open>b\<close>, itself or
    another, and the other callbacks leave the set alone: \<open>b\<close> is skipped if its turn had
    not come yet, and every other subscriber is still called.
  \<^item> When the callback of one subscriber \<open>a\<close> subscribes a new subscriber \<open>c\<close> and the
    other callbacks leave the set alone: \<open>c\<close> is called in the same pass, after all the
    others.
\<close>

theorem notification_pass_calls_registered_subscribers:
  "(listeners wb event = Some s
      \<longrightarrow> fst (emit envb event data wb) = map (\<lambda>l. (l, data)) (set_values s))
   \<and> ((\<forall>x q. \<not> fst (visit x q)) \<and> forEach entries visit i visited wl = Some (threw, seen, wl')
      \<longrightarrow> \<not> threw)
   \<and> (returns envs \<and> ss_notify envs state ws = Some (threw, calls, ws') \<longrightarrow> \<not> threw)
   \<and> (returns envs \<and> notifyKeySubscribers envs changedKeys state ws = Some (threw, calls, ws')
      \<longrightarrow> \<not> threw)
   \<and> ((\<forall>cb. leaves subscribers envq cb)
      \<longrightarrow> (\<exists>wq'. mq_notify envq wq
                    = Some (map (\<lambda>cb. (cb, QueueArg (queue wq))) (set_values (subscribers wq)),
                            wq')))
   \<and> (returns envs \<and> (\<forall>cb. leaves scopedSubscribers envs cb)
      \<longrightarrow> (\<exists>ws'. ss_notify envs state ws
                    = Some (False,
                        map (\<lambda>cb. (cb, StateArg state)) (set_values (scopedSubscribers ws)),
                        ws')))
   \<and> (returns envs \<and> (\<forall>cb. leaves keySubscribers envs cb)
      \<longrightarrow> (\<exists>ws'. notifyKeySubscribers envs changedKeys state ws
                    = Some (False, concat (map (keyCalls ws state) changedKeys), ws')))
   \<and> (deletes subscribers envq a b \<and> (\<forall>cb. cb \<noteq> a \<longrightarrow> leaves subscribers envq cb)
        \<and> subscribers wq = pre @ Some a # post \<and> Some a \<notin> set pre
      \<longrightarrow> (\<exists>wq'. mq_notify envq wq
                    = Some (map (\<lambda>cb. (cb, QueueArg (queue wq)))
                              (set_values pre @ a # removeAll b (set_values post)), wq')))
   \<and> (returns envs \<and> deletes scopedSubscribers envs a b
        \<and> (\<forall>cb. cb \<noteq> a \<longrightarrow> leaves scopedSubscribers envs cb)
        \<and> scopedSubscribers ws = pre @ Some a # post \<and> Some a \<notin> set pre
      \<longrightarrow> (\<exists>ws'. ss_notify envs state ws
                    = Some (False,
                        map (\<lambda>cb. (cb, StateArg state))
                          (set_values pre @ a # removeAll b (set_values post)), ws')))
   \<and> (returns envs \<and> deletes (keyEntries k) envs a b
        \<and> (\<forall>cb. cb \<noteq> a \<longrightarrow> leaves (keyEntries k) envs cb)
        \<and> keySubscribers ws k = Some (pre @ Some a # post) \<and> Some a \<notin> set pre
      \<longrightarrow> (\<exists>ws'. notifyKeySubscribers envs [k] state ws
                    = Some (False,
                        map (\<lambda>cb. (cb, ValueArg (map_of state k)))
                          (set_values pre @ a # removeAll b (set_values post)), ws')))
   \<and> (adds subscribers envq a c \<and> (\<forall>cb. cb \<noteq> a \<longrightarrow> leaves subscribers envq cb)
        \<and> Some a \<in> set (subscribers wq)
      \<longrightarrow> (\<exists>wq'. mq_notify envq wq
                    = Some (map (\<lambda>cb. (cb, QueueArg (queue wq)))
                              (set_values (set_add c (subscribers wq))), wq')))
   \<and> (returns envs \<and> adds scopedSubscribers envs a c
        \<and> (\<forall>cb. cb \<noteq> a \<longrightarrow> leaves scopedSubscribers envs cb)
        \<and> Some a \<in> set (scopedSubscribers ws)
      \<longrightarrow> (\<exists>ws'. ss_notify envs state ws
                    = Some (False,
                        map (\<lambda>cb. (cb, StateArg state))
                          (set_values (set_add c (scopedSubscribers ws))), ws')))
   \<and> (returns envs \<and> adds (keyEntries k) envs a c
        \<and> (\<forall>cb. cb \<noteq> a \<longrightarrow> leaves (keyEntries k) envs cb)
        \<and> keySubscribers ws k = Some sk \<and> Some a \<in> set sk
      \<longrightarrow> (\<exists>ws'. notifyKeySubscribers envs [k] state ws
                    = Some (False,
                        map (\<lambda>cb. (cb, ValueArg (map_of state k))) (set_values (set_add c sk)),
                        ws')))"
proof (intro conjI impI)
  assume "listeners wb event = Some s"
  then show "fst (emit envb event data wb) = map (\<lambda>l. (l, data)) (set_values s)"
    by (rule emit_invokes_snapshot)
next
  assume a: "(\<forall>x q. \<not> fst (visit x q)) \<and> forEach entries visit i visited wl = Some (threw, seen, wl')"
  from a have c: "\<forall>x q. \<not> fst (visit x q)"
    and r: "forEach entries visit i visited wl = Some (threw, seen, wl')"
    by simp_all
  from forEach_returns_normally [OF c r] show "\<not> threw"
    by simp
next
  assume "returns envs \<and> ss_notify envs state ws = Some (threw, calls, ws')"
  then show "\<not> threw"
    using ss_notify_returns [of envs state ws threw calls ws'] by simp
next
  assume "returns envs \<and> notifyKeySubscribers envs changedKeys state ws = Some (threw, calls, ws')"
  then show "\<not> threw"
    using key_pass_returns [of envs changedKeys state ws threw calls ws'] by simp
next
  assume "\<forall>cb. leaves subscribers envq cb"
  then have "\<And>cb. leaves subscribers envq cb"
    by simp
  from mq_notify_steady [of subscribers envq "\<lambda>x. x" wq, OF this]
  show "\<exists>wq'. mq_notify envq wq
                    = Some (map (\<lambda>cb. (cb, QueueArg (queue wq))) (set_values (subscribers wq)),
                            wq')"
    by auto
next
  assume a: "returns envs \<and> (\<forall>cb. leaves scopedSubscribers envs cb)"
  from a have r: "returns envs" and l: "\<And>cb. leaves scopedSubscribers envs cb"
    by simp_all
  from ss_notify_steady [of envs scopedSubscribers "\<lambda>x. x" state ws, OF r l]
  show "\<exists>ws'. ss_notify envs state ws
                    = Some (False,
                        map (\<lambda>cb. (cb, StateArg state)) (set_values (scopedSubscribers ws)),
                        ws')"
    by auto
next
  assume a: "returns envs \<and> (\<forall>cb. leaves keySubscribers envs cb)"
  from a have r: "returns envs" and l: "\<And>cb. leaves keySubscribers envs cb"
    by simp_all
  from key_pass_steady [of envs keySubscribers "\<lambda>x. x" changedKeys state ws, OF r l]
  show "\<exists>ws'. notifyKeySubscribers envs changedKeys state ws
                    = Some (False, concat (map (keyCalls ws state) changedKeys), ws')"
    by auto
next
  assume a: "deletes subscribers envq a b \<and> (\<forall>cb. cb \<noteq> a \<longrightarrow> leaves subscribers envq cb)
        \<and> subscribers wq = pre @ Some a # post \<and> Some a \<notin> set pre"
  from a have 1: "deletes subscribers envq a b"
    and 2: "\<And>cb. cb \<noteq> a \<Longrightarrow> leaves subscribers envq cb"
    and 3: "subscribers wq = pre @ Some a # post" and 4: "Some a \<notin> set pre"
    by simp_all
  from 1 2 3 4
  show "\<exists>wq'. mq_notify envq wq
                    = Some (map (\<lambda>cb. (cb, QueueArg (queue wq)))
                              (set_values pre @ a # removeAll b (set_values post)), wq')"
    by (rule mq_notify_skip)
next
  assume a: "returns envs \<and> deletes scopedSubscribers envs a b
        \<and> (\<forall>cb. cb \<noteq> a \<longrightarrow> leaves scopedSubscribers envs cb)
        \<and> scopedSubscribers ws = pre @ Some a # post \<and> Some a \<notin> set pre"
  from a have 0: "returns envs" and 1: "deletes scopedSubscribers envs a b"
    and 2: "\<And>cb. cb \<noteq> a \<Longrightarrow> leaves scopedSubscribers envs cb"
    and 3: "scopedSubscribers ws = pre @ Some a # post" and 4: "Some a \<notin> set pre"
    by simp_all
  from 0 1 2 3 4
  show "\<exists>ws'. ss_notify envs state ws
                    = Some (False,
                        map (\<lambda>cb. (cb, StateArg state))
                          (set_values pre @ a # removeAll b (set_values post)), ws')"
    by (rule ss_notify_skip)
next
  assume a: "returns envs \<and> deletes (keyEntries k) envs a b
        \<and> (\<forall>cb. cb \<noteq> a \<longrightarrow> leaves (keyEntries k) envs cb)
        \<and> keySubscribers ws k = Some (pre @ Some a # post) \<and> Some a \<notin> set pre"
  from a have 0: "returns envs" and 1: "deletes (keyEntries k) envs a b"
    and 2: "\<And>cb. cb \<noteq> a \<Longrightarrow> leaves (keyEntries k) envs cb"
    and 3: "keySubscribers ws k = Some (pre @ Some a # post)" and 4: "Some a \<notin> set pre"
    by simp_all
  from 0 1 2 3 4
  show "\<exists>ws'. notifyKeySubscribers envs [k] state ws
                    = Some (False,
                        map (\<lambda>cb. (cb, ValueArg (map_of state k)))
                          (set_values pre @ a # removeAll b (set_values post)), ws')"
    by (rule key_pass_skip)
next
  assume a: "adds subscribers envq a c \<and> (\<forall>cb. cb \<noteq> a \<longrightarrow> leaves subscribers envq cb)
        \<and> Some a \<in> set (subscribers wq)"
  from a have 1: "adds subscribers envq a c"
    and 2: "\<And>cb. cb \<noteq> a \<Longrightarrow> leaves subscribers envq cb"
    and 3: "Some a \<in> set (subscribers wq)"
    by simp_all
  from 1 2 3
  show "\<exists>wq'. mq_notify envq wq
                    = Some (map (\<lambda>cb. (cb, QueueArg (queue wq)))
                              (set_values (set_add c (subscribers wq))), wq')"
    by (rule mq_notify_add)
next
  assume a: "returns envs \<and> adds scopedSubscribers envs a c
        \<and> (\<forall>cb. cb \<noteq> a \<longrightarrow> leaves scopedSubscribers envs cb)
        \<and> Some a \<in> set (scopedSubscribers ws)"
  from a have 0: "returns envs" and 1: "adds scopedSubscribers envs a c"
    and 2: "\<And>cb. cb \<noteq> a \<Longrightarrow> leaves scopedSubscribers envs cb"
    and 3: "Some a \<in> set (scopedSubscribers ws)"
    by simp_all
  from 0 1 2 3
  show "\<exists>ws'. ss_notify envs state ws
                    = Some (False,
                        map (\<lambda>cb. (cb, StateArg state))
                          (set_values (set_add c (scopedSubscribers ws))), ws')"
    by (rule ss_notify_add)
next
  assume a: "returns envs \<and> adds (keyEntries k) envs a c
        \<and> (\<forall>cb. cb \<noteq> a \<longrightarrow> leaves (keyEntries k) envs cb)
        \<and> keySubscribers ws k = Some sk \<and> Some a \<in> set sk"
  from a have 0: "returns envs" and 1: "adds (keyEntries k) envs a c"
    and 2: "\<And>cb. cb \<noteq> a \<Longrightarrow> leaves (keyEntries k) envs cb"
    and 3: "keySubscribers ws k = Some sk" and 4: "Some a \<in> set sk"
    by simp_all
  from 0 1 2 3 4
  show "\<exists>ws'. notifyKeySubscribers envs [k] state ws
                    = Some (False,
                        map (\<lambda>cb. (cb, ValueArg (map_of state k))) (set_values (set_add c sk)),
                        ws')"
    by (rule key_pass_add)
qed


lemma unsubscribingSecond_effect:
  "deletes subscribers unsubscribingSecond 1 2"
  "\<forall>cb. cb \<noteq> 1 \<longrightarrow> leaves subscribers unsubscribingSecond cb"
  by (simp_all add: deletes_def leaves_def unsubscribingSecond_def mq_unsubscribe_def)

lemma subscribingThird_effect:
  "adds subscribers subscribingThird 1 3"
  "\<forall>cb. cb \<noteq> 1 \<longrightarrow> leaves subscribers subscribingThird cb"
  by (simp_all add: adds_def leaves_def subscribingThird_def mq_subscribe_def idle_def Let_def)

lemma scopedUnsubscribingSecond_effect:
  "returns scopedUnsubscribingSecond"
  "deletes scopedSubscribers scopedUnsubscribingSecond 1 2"
  "\<forall>cb. cb \<noteq> 1 \<longrightarrow> leaves scopedSubscribers scopedUnsubscribingSecond cb"
  by (simp_all add: returns_def deletes_def leaves_def scopedUnsubscribingSecond_def
      ss_unsubscribe_def)

lemma scopedSubscribingFifth_effect:
  "returns scopedSubscribingFifth"
  "adds scopedSubscribers scopedSubscribingFifth 1 5"
  "\<forall>cb. cb \<noteq> 1 \<longrightarrow> leaves scopedSubscribers scopedSubscribingFifth cb"
  by (simp_all add: returns_def adds_def leaves_def scopedSubscribingFifth_def
      ss_subscribe_def idle_def Let_def)

lemma keyUnsubscribingSixth_effect:
  "returns keyUnsubscribingSixth"
  "deletes (keyEntries ''health'') keyUnsubscribingSixth 3 6"
  "\<forall>cb. cb \<noteq> 3 \<longrightarrow> leaves (keyEntries ''health'') keyUnsubscribingSixth cb"
  by (simp_all add: returns_def deletes_def leaves_def keyUnsubscribingSixth_def
      ss_unsubscribeFromKey_def keyEntries_def set_delete_def split: option.splits)

lemma keySubscribingSeventh_effect:
  "returns keySubscribingSeventh"
  "adds (keyEntries ''health'') keySubscribingSeventh 3 7"
  "\<forall>cb. cb \<noteq> 3 \<longrightarrow> leaves (keyEntries ''health'') keySubscribingSeventh cb"
  by (simp_all add: returns_def adds_def leaves_def keySubscribingSeventh_def
      ss_subscribeToKey_def idle_def keyEntries_def Let_def split: option.splits)

lemma healthWatchers_health: "keySubscribers healthWatchers ''health'' = Some ([] @ Some 3 # [Some 6])"
  by (simp add: healthWatchers_def set_add_def)

text \<open>
  The bus with the re-emitting listener; the queue with two subscribers, the first of which
  throws, unsubscribes the second or subscribes a third; the player store with idle
  subscribers, with whole-state subscriber 1 unsubscribing subscriber 2 or subscribing
  subscriber 5, and with health subscriber 3 unsubscribing health subscriber 6 or subscribing
  health subscriber 7.
\<close>

theorem notification_pass_calls_registered_subscribers_witness:
  "listeners busWithOnce ''x'' = Some [Some (Plain cbA), Some (OnceWrapper 0 ''x'' cbOnce)]
   \<and> fst (emit reemitting ''x'' 1 busWithOnce)
       = [(Plain cbA, 1), (OnceWrapper 0 ''x'' cbOnce, 1)]
   \<and> (\<forall>cb. leaves subscribers
         (firstThrows :: ((string, string, string) mq_arg, (string, string) ModalQueue) callbacks) cb)
   \<and> (\<exists>wq'. mq_notify (firstThrows
                :: ((string, string, string) mq_arg, (string, string) ModalQueue) callbacks)
              twoSubscribers
            = Some ([(1, QueueArg []), (2, QueueArg [])], wq'))
   \<and> returns (idle :: (json scoped_arg, (json obj, json) ScopedStore) callbacks)
   \<and> (\<forall>cb. leaves scopedSubscribers
         (idle :: (json scoped_arg, (json obj, json) ScopedStore) callbacks) cb)
   \<and> (\<forall>cb. leaves keySubscribers
         (idle :: (json scoped_arg, (json obj, json) ScopedStore) callbacks) cb)
   \<and> (\<exists>threw calls ws'.
          ss_notify (idle :: (json scoped_arg, (json obj, json) ScopedStore) callbacks)
              [] playerStore = Some (threw, calls, ws')
          \<and> \<not> threw \<and> calls = [(1, StateArg []), (2, StateArg [])])
   \<and> (\<exists>threw calls ws'.
          notifyKeySubscribers (idle :: (json scoped_arg, (json obj, json) ScopedStore) callbacks)
              [''health''] [(''health'', JNum 50)] playerStore = Some (threw, calls, ws')
          \<and> \<not> threw \<and> calls = [(3, ValueArg (Some (JNum 50)))])
   \<and> (\<forall>x q. \<not> fst ((\<lambda>cb w. (False, w)) (x :: cbid) (q :: (string, string) ModalQueue)))
   \<and> forEach subscribers (\<lambda>cb w. (False, w)) 0 [] twoSubscribers
        = Some (False, [1, 2], twoSubscribers)
   \<and> deletes subscribers
        (unsubscribingSecond :: ((string, string, string) mq_arg, (string, string) ModalQueue) callbacks)
        1 2
   \<and> leaves subscribers
        (unsubscribingSecond :: ((string, string, string) mq_arg, (string, string) ModalQueue) callbacks) 2
   \<and> subscribers twoSubscribers = [] @ Some 1 # [Some 2]
   \<and> (\<exists>wq'. mq_notify (unsubscribingSecond
                :: ((string, string, string) mq_arg, (string, string) ModalQueue) callbacks)
              twoSubscribers
            = Some ([(1, QueueArg [])], wq'))
   \<and> adds subscribers
        (subscribingThird :: ((string, string, string) mq_arg, (string, string) ModalQueue) callbacks)
        1 3
   \<and> leaves subscribers
        (subscribingThird :: ((string, string, string) mq_arg, (string, string) ModalQueue) callbacks) 2
   \<and> (\<exists>wq'. mq_notify (subscribingThird
                :: ((string, string, string) mq_arg, (string, string) ModalQueue) callbacks)
              twoSubscribers
            = Some ([(1, QueueArg []), (2, QueueArg []), (3, QueueArg [])], wq'))
   \<and> returns (scopedUnsubscribingSecond :: (json scoped_arg, (json obj, json) ScopedStore) callbacks)
   \<and> deletes scopedSubscribers
        (scopedUnsubscribingSecond :: (json scoped_arg, (json obj, json) ScopedStore) callbacks) 1 2
   \<and> leaves scopedSubscribers
        (scopedUnsubscribingSecond :: (json scoped_arg, (json obj, json) ScopedStore) callbacks) 2
   \<and> scopedSubscribers playerStore = [] @ Some 1 # [Some 2]
   \<and> (\<exists>ws'. ss_notify scopedUnsubscribingSecond [] playerStore
            = Some (False, [(1, StateArg [])], ws'))
   \<and> returns (scopedSubscribingFifth :: (json scoped_arg, (json obj, json) ScopedStore) callbacks)
   \<and> adds scopedSubscribers
        (scopedSubscribingFifth :: (json scoped_arg, (json obj, json) ScopedStore) callbacks) 1 5
   \<and> leaves scopedSubscribers
        (scopedSubscribingFifth :: (json scoped_arg, (json obj, json) ScopedStore) callbacks) 2
   \<and> (\<exists>ws'. ss_notify scopedSubscribingFifth [] playerStore
            = Some (False, [(1, StateArg []), (2, StateArg []), (5, StateArg [])], ws'))
   \<and> returns (keyUnsubscribingSixth :: (json scoped_arg, (json obj, json) ScopedStore) callbacks)
   \<and> deletes (keyEntries ''health'')
        (keyUnsubscribingSixth :: (json scoped_arg, (json obj, json) ScopedStore) callbacks) 3 6
   \<and> leaves (keyEntries ''health'')
        (keyUnsubscribingSixth :: (json scoped_arg, (json obj, json) ScopedStore) callbacks) 6
   \<and> keySubscribers healthWatchers ''health'' = Some ([] @ Some 3 # [Some 6])
   \<and> (\<exists>ws'. notifyKeySubscribers keyUnsubscribingSixth [''health''] [(''health'', JNum 50)]
              healthWatchers
            = Some (False, [(3, ValueArg (Some (JNum 50)))], ws'))
   \<and> returns (keySubscribingSeventh :: (json scoped_arg, (json obj, json) ScopedStore) callbacks)
   \<and> adds (keyEntries ''health'')
        (keySubscribingSeventh :: (json scoped_arg, (json obj, json) ScopedStore) callbacks) 3 7
   \<and> leaves (keyEntries ''health'')
        (keySubscribingSeventh :: (json scoped_arg, (json obj, json) ScopedStore) callbacks) 7
   \<and> keySubscribers playerStore ''health'' = Some [Some 3]
   \<and> (\<exists>ws'. notifyKeySubscribers keySubscribingSeventh [''health''] [(''health'', JNum 50)]
              playerStore
            = Some (False, [(3, ValueArg (Some (JNum 50))), (7, ValueArg (Some (JNum 50)))], ws'))"
proof -
  let ?throwing = "firstThrows :: ((string, string, string) mq_arg, (string, string) ModalQueue) callbacks"
  let ?idle = "idle :: (json scoped_arg, (json obj, json) ScopedStore) callbacks"
  let ?unsub = "unsubscribingSecond
                  :: ((string, string, string) mq_arg, (string, string) ModalQueue) callbacks"
  let ?sub = "subscribingThird
                :: ((string, string, string) mq_arg, (string, string) ModalQueue) callbacks"
  let ?sunsub = "scopedUnsubscribingSecond :: (json scoped_arg, (json obj, json) ScopedStore) callbacks"
  let ?ssub = "scopedSubscribingFifth :: (json scoped_arg, (json obj, json) ScopedStore) callbacks"
  let ?kunsub = "keyUnsubscribingSixth :: (json scoped_arg, (json obj, json) ScopedStore) callbacks"
  let ?ksub = "keySubscribingSeventh :: (json scoped_arg, (json obj, json) ScopedStore) callbacks"
  let ?pure = "(\<lambda>cb w. (False, w)) :: cbid \<Rightarrow> (string, string) ModalQueue \<Rightarrow> bool \<times> (string, string) ModalQueue"
  let ?hp = "[(''health'', JNum 50)] :: json obj"
  note steady = notification_pass_calls_registered_subscribers
      [where wb = busWithOnce and event = "''x''"
        and s = "[Some (Plain cbA), Some (OnceWrapper 0 ''x'' cbOnce)]"
        and envb = reemitting and data = 1
        and envq = ?throwing and wq = twoSubscribers
        and envs = ?idle and state = "[]" and ws = playerStore
        and entries = subscribers and visit = ?pure and i = 0 and visited = "[]"
        and wl = twoSubscribers and wl' = twoSubscribers and threw = False and seen = "[1, 2]"]
  note keyed = notification_pass_calls_registered_subscribers
      [where envs = ?idle and changedKeys = "[''health'']" and state = ?hp and ws = playerStore]
  note skipq = notification_pass_calls_registered_subscribers
      [where envq = ?unsub and wq = twoSubscribers and a = 1 and b = 2 and pre = "[]"
        and post = "[Some 2]"]
  note addq = notification_pass_calls_registered_subscribers
      [where envq = ?sub and wq = twoSubscribers and a = 1 and c = 3]
  note skips = notification_pass_calls_registered_subscribers
      [where envs = ?sunsub and ws = playerStore and state = "[]" and a = 1 and b = 2
        and pre = "[]" and post = "[Some 2]"]
  note adds = notification_pass_calls_registered_subscribers
      [where envs = ?ssub and ws = playerStore and state = "[]" and a = 1 and c = 5]
  note skipk = notification_pass_calls_registered_subscribers
      [where envs = ?kunsub and ws = healthWatchers and state = ?hp and k = "''health''"
        and a = 3 and b = 6 and pre = "[]" and post = "[Some 6]"]
  note addk = notification_pass_calls_registered_subscribers
      [where envs = ?ksub and ws = playerStore and state = ?hp and k = "''health''"
        and a = 3 and c = 7 and sk = "[Some 3]"]
  have b1: "listeners busWithOnce ''x'' = Some [Some (Plain cbA), Some (OnceWrapper 0 ''x'' cbOnce)]"
    by (rule busWithOnce_listeners)
  from steady [THEN conjunct1, THEN mp, OF b1]
  have b2: "fst (emit reemitting ''x'' 1 busWithOnce)
       = [(Plain cbA, 1), (OnceWrapper 0 ''x'' cbOnce, 1)]"
    by (simp add: set_values_def List.map_filter_simps)
  have q1: "\<forall>cb. leaves subscribers ?throwing cb"
    by (simp add: leaves_def firstThrows_def)
  from steady [THEN conjunct2, THEN conjunct2, THEN conjunct2, THEN conjunct2, THEN conjunct1,
      THEN mp, OF q1]
  have q2: "\<exists>wq'. mq_notify ?throwing twoSubscribers
                     = Some ([(1, QueueArg []), (2, QueueArg [])], wq')"
    by (simp add: twoSubscribers_eval set_values_def List.map_filter_simps)
  have s0: "returns ?idle"
    by (rule returns_idle)
  have s1: "\<forall>cb. leaves scopedSubscribers ?idle cb"
    by (simp add: leaves_idle)
  have s2: "\<forall>cb. leaves keySubscribers ?idle cb"
    by (simp add: leaves_idle)
  from steady [THEN conjunct2, THEN conjunct2, THEN conjunct2, THEN conjunct2, THEN conjunct2,
      THEN conjunct1, THEN mp, OF conjI, OF s0 s1]
  obtain ws' where n: "ss_notify ?idle [] playerStore
       = Some (False, map (\<lambda>cb. (cb, StateArg [])) (set_values (scopedSubscribers playerStore)), ws')"
    by blast
  from notification_pass_calls_registered_subscribers
      [where envs = ?idle and state = "[]" and ws = playerStore and threw = False
        and calls = "map (\<lambda>cb. (cb, StateArg [])) (set_values (scopedSubscribers playerStore))"
        and ws' = ws',
        THEN conjunct2, THEN conjunct2, THEN conjunct1, THEN mp, OF conjI, OF s0 n]
  have nt: "\<not> False" .
  have nc: "map (\<lambda>cb. (cb, StateArg [])) (set_values (scopedSubscribers playerStore))
              = [(1, StateArg ([] :: json obj)), (2, StateArg [])]"
    by (simp add: playerStore_fields(3))
  from n nt nc
  have s3: "\<exists>threw calls ws'. ss_notify ?idle [] playerStore = Some (threw, calls, ws')
              \<and> \<not> threw \<and> calls = [(1, StateArg []), (2, StateArg [])]"
    by (intro exI conjI)
  from keyed [THEN conjunct2, THEN conjunct2, THEN conjunct2, THEN conjunct2, THEN conjunct2,
      THEN conjunct2, THEN conjunct1, THEN mp, OF conjI, OF s0 s2]
  obtain wk' where kn: "notifyKeySubscribers ?idle [''health''] ?hp playerStore
       = Some (False, concat (map (keyCalls playerStore ?hp) [''health'']), wk')"
    by blast
  from notification_pass_calls_registered_subscribers
      [where envs = ?idle and changedKeys = "[''health'']" and state = ?hp and ws = playerStore
        and threw = False and calls = "concat (map (keyCalls playerStore ?hp) [''health''])"
        and ws' = wk',
        THEN conjunct2, THEN conjunct2, THEN conjunct2, THEN conjunct1, THEN mp, OF conjI,
        OF s0 kn]
  have knt: "\<not> False" .
  have kc: "concat (map (keyCalls playerStore ?hp) [''health'']) = [(3, ValueArg (Some (JNum 50)))]"
    by (simp add: keyCalls_def playerStore_fields(5) set_values_def List.map_filter_simps)
  from kn knt kc
  have s4: "\<exists>threw calls ws'. notifyKeySubscribers ?idle [''health''] ?hp playerStore
                = Some (threw, calls, ws')
              \<and> \<not> threw \<and> calls = [(3, ValueArg (Some (JNum 50)))]"
    by (intro exI conjI)
  have f1: "\<forall>x q. \<not> fst (?pure x q)"
    by simp
  have f2: "forEach subscribers ?pure 0 [] twoSubscribers = Some (False, [1, 2], twoSubscribers)"
    using forEach_unchanged [of ?pure twoSubscribers subscribers 0 "[]"]
    by (simp add: twoSubscribers_values)
  from steady [THEN conjunct2, THEN conjunct1, THEN mp, OF conjI, OF f1 f2]
  have f3: "\<not> False" .
  have u1: "deletes subscribers ?unsub 1 2"
    by (rule unsubscribingSecond_effect(1))
  have u2: "\<forall>cb. cb \<noteq> 1 \<longrightarrow> leaves subscribers ?unsub cb"
    by (rule unsubscribingSecond_effect(2))
  have u3: "subscribers twoSubscribers = [] @ Some 1 # [Some 2]"
    by (simp add: twoSubscribers_eval)
  have u4: "Some (1 :: cbid) \<notin> set []"
    by simp
  from skipq [THEN conjunct2, THEN conjunct2, THEN conjunct2, THEN conjunct2, THEN conjunct2,
      THEN conjunct2, THEN conjunct2, THEN conjunct1, THEN mp, OF conjI, OF u1 conjI,
      OF u2 conjI, OF u3 u4]
  have u5: "\<exists>wq'. mq_notify ?unsub twoSubscribers = Some ([(1, QueueArg [])], wq')"
    by (simp add: twoSubscribers_eval set_values_def List.map_filter_simps)
  have a1: "adds subscribers ?sub 1 3"
    by (rule subscribingThird_effect(1))
  have a2: "\<forall>cb. cb \<noteq> 1 \<longrightarrow> leaves subscribers ?sub cb"
    by (rule subscribingThird_effect(2))
  have a3: "Some 1 \<in> set (subscribers twoSubscribers)"
    by (simp add: twoSubscribers_eval)
  from addq [THEN conjunct2, THEN conjunct2, THEN conjunct2, THEN conjunct2, THEN conjunct2,
      THEN conjunct2, THEN conjunct2, THEN conjunct2, THEN conjunct2, THEN conjunct2,
      THEN conjunct1, THEN mp, OF conjI, OF a1 conjI, OF a2 a3]
  have a4: "\<exists>wq'. mq_notify ?sub twoSubscribers
                     = Some ([(1, QueueArg []), (2, QueueArg []), (3, QueueArg [])], wq')"
    by (simp add: twoSubscribers_eval set_add_def set_values_def List.map_filter_simps)
  have su0: "returns ?sunsub"
    by (rule scopedUnsubscribingSecond_effect(1))
  have su1: "deletes scopedSubscribers ?sunsub 1 2"
    by (rule scopedUnsubscribingSecond_effect(2))
  have su2: "\<forall>cb. cb \<noteq> 1 \<longrightarrow> leaves scopedSubscribers ?sunsub cb"
    by (rule scopedUnsubscribingSecond_effect(3))
  have su3: "scopedSubscribers playerStore = [] @ Some 1 # [Some 2]"
    by (simp add: playerStore_fields(4))
  from skips [THEN conjunct2, THEN conjunct2, THEN conjunct2, THEN conjunct2, THEN conjunct2,
      THEN conjunct2, THEN conjunct2, THEN conjunct2, THEN conjunct1, THEN mp, OF conjI,
      OF su0 conjI, OF su1 conjI, OF su2 conjI, OF su3 u4]
  have su5: "\<exists>ws'. ss_notify ?sunsub [] playerStore = Some (False, [(1, StateArg [])], ws')"
    by (simp add: set_values_def List.map_filter_simps)
  have sa0: "returns ?ssub"
    by (rule scopedSubscribingFifth_effect(1))
  have sa1: "adds scopedSubscribers ?ssub 1 5"
    by (rule scopedSubscribingFifth_effect(2))
  have sa2: "\<forall>cb. cb \<noteq> 1 \<longrightarrow> leaves scopedSubscribers ?ssub cb"
    by (rule scopedSubscribingFifth_effect(3))
  have sa3: "Some 1 \<in> set (scopedSubscribers playerStore)"
    by (simp add: playerStore_fields(4))
  from adds [THEN conjunct2, THEN conjunct2, THEN conjunct2, THEN conjunct2, THEN conjunct2,
      THEN conjunct2, THEN conjunct2, THEN conjunct2, THEN conjunct2, THEN conjunct2,
      THEN conjunct2, THEN conjunct1, THEN mp, OF conjI, OF sa0 conjI, OF sa1 conjI, OF sa2 sa3]
  have sa4: "\<exists>ws'. ss_notify ?ssub [] playerStore
               = Some (False, [(1, StateArg []), (2, StateArg []), (5, StateArg [])], ws')"
    by (simp add: playerStore_fields(4) set_add_def set_values_def List.map_filter_simps)
  have ku0: "returns ?kunsub"
    by (rule keyUnsubscribingSixth_effect(1))
  have ku1: "deletes (keyEntries ''health'') ?kunsub 3 6"
    by (rule keyUnsubscribingSixth_effect(2))
  have ku2: "\<forall>cb. cb \<noteq> 3 \<longrightarrow> leaves (keyEntries ''health'') ?kunsub cb"
    by (rule keyUnsubscribingSixth_effect(3))
  have ku3: "keySubscribers healthWatchers ''health'' = Some ([] @ Some 3 # [Some 6])"
    by (rule healthWatchers_health)
  have ku4: "Some (3 :: cbid) \<notin> set []"
    by simp
  from skipk [THEN conjunct2, THEN conjunct2, THEN conjunct2, THEN conjunct2, THEN conjunct2,
      THEN conjunct2, THEN conjunct2, THEN conjunct2, THEN conjunct2, THEN conjunct1, THEN mp,
      OF conjI, OF ku0 conjI, OF ku1 conjI, OF ku2 conjI, OF ku3 ku4]
  have ku5: "\<exists>ws'. notifyKeySubscribers ?kunsub [''health''] ?hp healthWatchers
               = Some (False, [(3, ValueArg (Some (JNum 50)))], ws')"
    by (simp add: set_values_def List.map_filter_simps)
  have ka0: "returns ?ksub"
    by (rule keySubscribingSeventh_effect(1))
  have ka1: "adds (keyEntries ''health'') ?ksub 3 7"
    by (rule keySubscribingSeventh_effect(2))
  have ka2: "\<forall>cb. cb \<noteq> 3 \<longrightarrow> leaves (keyEntries ''health'') ?ksub cb"
    by (rule keySubscribingSeventh_effect(3))
  have ka3: "keySubscribers playerStore ''health'' = Some [Some 3]"
    by (rule playerStore_fields(5))
  have ka4: "Some (3 :: cbid) \<in> set [Some 3]"
    by simp
  from addk [THEN conjunct2, THEN conjunct2, THEN conjunct2, THEN conjunct2, THEN conjunct2,
      THEN conjunct2, THEN conjunct2, THEN conjunct2, THEN conjunct2, THEN conjunct2,
      THEN conjunct2, THEN conjunct2, THEN mp, OF conjI, OF ka0 conjI, OF ka1 conjI,
      OF ka2 conjI, OF ka3 ka4]
  have ka5: "\<exists>ws'. notifyKeySubscribers ?ksub [''health''] ?hp playerStore
               = Some (False, [(3, ValueArg (Some (JNum 50))), (7, ValueArg (Some (JNum 50)))], ws')"
    by (simp add: set_add_def set_values_def List.map_filter_simps)
  from u2 have u2i: "leaves subscribers ?unsub 2"
    by simp
  from a2 have a2i: "leaves subscribers ?sub 2"
    by simp
  from su2 have su2i: "leaves scopedSubscribers ?sunsub 2"
    by simp
  from sa2 have sa2i: "leaves scopedSubscribers ?ssub 2"
    by simp
  from ku2 have ku2i: "leaves (keyEntries ''health'') ?kunsub 6"
    by simp
  from ka2 have ka2i: "leaves (keyEntries ''health'') ?ksub 7"
    by simp
  from b1 b2 q1 q2 s0 s1 s2 s3 s4 f1 f2 u1 u2i u3 u5 a1 a2i a4 su0 su1 su2i su3 su5
    sa0 sa1 sa2i sa4 ku0 ku1 ku2i ku3 ku5 ka0 ka1 ka2i ka3 ka5
  show ?thesis
    by (intro conjI)
qed


section \<open>Middleware pipeline\<close>

lemma heap_extends_refl: "heap_extends h h"
  by (simp add: heap_extends_def)

lemma heap_extends_trans: "heap_extends h1 h2 \<Longrightarrow> heap_extends h2 h3 \<Longrightarrow> heap_extends h1 h3"
  by (auto simp: heap_extends_def)

lemma heap_extends_cell: "heap_extends h h' \<Longrightarrow> a < used h \<Longrightarrow> cells h' a = cells h a"
  by (simp add: heap_extends_def)

lemma heap_extends_used: "heap_extends h h' \<Longrightarrow> a < used h \<Longrightarrow> a < used h'"
  by (simp add: heap_extends_def)

lemma alloc_extends:
  assumes "alloc v h = (a, h')"
  shows "a = used h" and "used h' = Suc (used h)" and "cells h' a = v" and "heap_extends h h'"
  using assms by (auto simp: alloc_def heap_extends_def)

lemma deepCloneRef_extends:
  assumes "deepCloneRef x h = (a, h')"
  shows "a = used h" and "used h' = Suc (used h)" and "cells h' a = cells h x" and "heap_extends h h'"
  using assms by (auto simp: deepCloneRef_def alloc_def heap_extends_def)

lemma overwrite_fresh_extends:
  assumes "heap_extends h h2" and "used h \<le> a1" and "used h \<le> a2"
  shows "heap_extends h (h2\<lparr>cells := (cells h2)(a1 := x, a2 := y)\<rparr>)"
  using assms by (auto simp: heap_extends_def)

lemma overwrite3_fresh_extends:
  assumes "heap_extends h h2" and "used h \<le> a1" and "used h \<le> a2" and "used h \<le> a3"
  shows "heap_extends h (h2\<lparr>cells := (cells h2)(a1 := x, a2 := y, a3 := z)\<rparr>)"
  using assms by (auto simp: heap_extends_def)

lemma ball_above: "\<forall>a \<in> A. m \<le> a \<Longrightarrow> n < m \<Longrightarrow> \<forall>a \<in> A. n < (a::nat)"
  by auto

lemma ball_above': "\<forall>a \<in> A. m < a \<Longrightarrow> n < m \<Longrightarrow> \<forall>a \<in> A. n < (a::nat)"
  by auto

lemma core_get_props:
  assumes "core_get c h = (a, h')"
  shows "a = used h" and "used h' = Suc (used h)" and "cells h' a = stored c h"
    and "heap_extends h h'"
  using assms by (auto simp: core_get_def deepCloneRef_def alloc_def heap_extends_def stored_def)

lemma core_patch_props:
  assumes "core_patch p c h = (c', h')"
  shows "current c' = used h" and "used h' = Suc (used h)"
    and "stored c' h' = spread (stored c h) (cells h p)" and "heap_extends h h'"
  using assms by (auto simp: core_patch_def alloc_def heap_extends_def stored_def)

lemma core_set_props:
  assumes "core_set s c h = (c', h')"
  shows "current c' = used h" and "used h' = Suc (used h)"
    and "stored c' h' = cells h s" and "heap_extends h h'"
  using assms by (auto simp: core_set_def deepCloneRef_def alloc_def heap_extends_def stored_def)

lemma core_reset_props:
  assumes "core_reset c h = (c', h')"
  shows "current c' = used h" and "used h' = Suc (used h)"
    and "stored c' h' = cells h (initial c)" and "heap_extends h h'"
  using assms by (auto simp: core_reset_def deepCloneRef_def alloc_def heap_extends_def stored_def)

text \<open>
  The pre-write phase keeps every object that existed before it, and its calls are chained.
\<close>

lemma runBeforePatch_chain:
  assumes "state < used h" and "currentPatch < used h"
    and "runBeforePatch middleware state currentPatch h = (calls, finalPatch, h')"
  shows "heap_extends h h' \<and> finalPatch < used h'
       \<and> sequentiallyChained (cells h currentPatch) calls (cells h' finalPatch)
       \<and> map beforeCallOf calls = map (\<lambda>mw. Some (name mw, cells h state)) (withBefore middleware)"
  using assms
proof (induction middleware arbitrary: currentPatch h calls finalPatch h')
  case Nil
  then show ?case
    by (simp add: heap_extends_refl withBefore_def)
next
  case (Cons mw rest)
  show ?case
  proof (cases "beforePatch mw")
    case None
    with Cons.prems(3) have r: "runBeforePatch rest state currentPatch h = (calls, finalPatch, h')"
      by simp
    from Cons.IH [OF Cons.prems(1,2) r] None show ?thesis
      by (simp add: withBefore_def)
  next
    case (Some hook)
    obtain a1 h1 where c1: "deepCloneRef state h = (a1, h1)"
      by (cases "deepCloneRef state h")
    obtain a2 h2 where c2: "deepCloneRef currentPatch h1 = (a2, h2)"
      by (cases "deepCloneRef currentPatch h1")
    note p1 = deepCloneRef_extends [OF c1]
    note p2 = deepCloneRef_extends [OF c2]
    have s1: "cells h2 a1 = cells h state"
      using p1 p2 Cons.prems(1) by (simp add: heap_extends_def)
    have s2: "cells h2 a2 = cells h currentPatch"
      using p1 p2 Cons.prems(2) by (simp add: heap_extends_def)
    define effect where "effect = hook (cells h state) (cells h currentPatch)"
    define h3 where "h3 = h2\<lparr>cells := (cells h2)(a1 := stateLeft effect, a2 := patchLeft effect)\<rparr>"
    define call where "call = BeforeCall (name mw) a1 a2 (cells h state) (cells h currentPatch) (beforeResult effect)"
    have e02: "heap_extends h h2"
      using p1(4) p2(4) by (rule heap_extends_trans)
    have e03: "heap_extends h h3"
      unfolding h3_def using e02 p1 p2 by (intro overwrite_fresh_extends) simp_all
    have u3: "used h3 = Suc (Suc (used h))"
      using p1 p2 by (simp add: h3_def)
    have st3: "state < used h3" "currentPatch < used h3"
      using Cons.prems(1,2) u3 by simp_all
    have c3: "cells h3 state = cells h state" "cells h3 currentPatch = cells h currentPatch"
      using e03 Cons.prems(1,2) by (simp_all add: heap_extends_cell)
    show ?thesis
    proof (cases "beforeResult effect")
      case (BeforePatch result)
      obtain r h4 where a: "alloc result h3 = (r, h4)"
        by (cases "alloc result h3")
      note p4 = alloc_extends [OF a]
      obtain calls' fin h5 where rec: "runBeforePatch rest state r h4 = (calls', fin, h5)"
        by (cases "runBeforePatch rest state r h4") auto
      have res: "calls = call # calls'" "finalPatch = fin" "h' = h5"
        using Cons.prems(3) Some c1 c2 s1 s2 BeforePatch a rec
        by (simp_all add: effect_def h3_def call_def Let_def)
      have st4: "state < used h4" "r < used h4"
        using st3 p4 by simp_all
      note ih = Cons.IH [OF st4 rec]
      have c4: "cells h4 state = cells h state"
        using p4(4) st3(1) c3(1) by (simp add: heap_extends_cell)
      have e05: "heap_extends h h5"
        using e03 p4(4) ih by (blast intro: heap_extends_trans)
      show ?thesis
        using res ih e05 Some BeforePatch p4(3) c4
        by (simp add: call_def withBefore_def)
    next
      case BeforeVoid
      obtain calls' fin h5 where rec: "runBeforePatch rest state currentPatch h3 = (calls', fin, h5)"
        by (cases "runBeforePatch rest state currentPatch h3") auto
      have res: "calls = call # calls'" "finalPatch = fin" "h' = h5"
        using Cons.prems(3) Some c1 c2 s1 s2 BeforeVoid rec
        by (simp_all add: effect_def h3_def call_def Let_def)
      note ih = Cons.IH [OF st3 rec]
      have e05: "heap_extends h h5"
        using e03 ih by (blast intro: heap_extends_trans)
      show ?thesis
        using res ih e05 Some BeforeVoid c3
        by (simp add: call_def withBefore_def)
    next
      case BeforeThrow
      obtain calls' fin h5 where rec: "runBeforePatch rest state currentPatch h3 = (calls', fin, h5)"
        by (cases "runBeforePatch rest state currentPatch h3") auto
      have res: "calls = call # calls'" "finalPatch = fin" "h' = h5"
        using Cons.prems(3) Some c1 c2 s1 s2 BeforeThrow rec
        by (simp_all add: effect_def h3_def call_def Let_def)
      note ih = Cons.IH [OF st3 rec]
      have e05: "heap_extends h h5"
        using e03 ih by (blast intro: heap_extends_trans)
      show ?thesis
        using res ih e05 Some BeforeThrow c3
        by (simp add: call_def withBefore_def)
    qed
  qed
qed

text \<open>
  The post-write phase keeps every object that existed before it: each hook receives three
  objects allocated for that call alone.
\<close>

lemma runAfterPatch_calls:
  assumes "prevState < used h" and "newState < used h" and "patch < used h"
    and "runAfterPatch middleware prevState newState patch h = (calls, h')"
  shows "heap_extends h h'
       \<and> map afterCallOf calls
           = map (\<lambda>mw. Some (name mw, cells h prevState, cells h newState, cells h patch))
               (withAfter middleware)
       \<and> distinct (concat (map afterArguments calls))
       \<and> (\<forall>a \<in> set (concat (map afterArguments calls)). used h \<le> a \<and> a < used h')"
  using assms
proof (induction middleware arbitrary: h calls h')
  case Nil
  then show ?case
    by (simp add: heap_extends_refl withAfter_def)
next
  case (Cons mw rest)
  show ?case
  proof (cases "afterPatch mw")
    case None
    with Cons.prems(4) have r: "runAfterPatch rest prevState newState patch h = (calls, h')"
      by simp
    from Cons.IH [OF Cons.prems(1,2,3) r] None show ?thesis
      by (simp add: withAfter_def)
  next
    case (Some hook)
    obtain a1 h1 where c1: "deepCloneRef prevState h = (a1, h1)"
      by (cases "deepCloneRef prevState h")
    obtain a2 h2 where c2: "deepCloneRef newState h1 = (a2, h2)"
      by (cases "deepCloneRef newState h1")
    obtain a3 h3 where c3: "deepCloneRef patch h2 = (a3, h3)"
      by (cases "deepCloneRef patch h2")
    note p1 = deepCloneRef_extends [OF c1]
    note p2 = deepCloneRef_extends [OF c2]
    note p3 = deepCloneRef_extends [OF c3]
    have e03: "heap_extends h h3"
      using p1(4) p2(4) p3(4) by (blast intro: heap_extends_trans)
    have s1: "cells h3 a1 = cells h prevState"
      using p1 p2 p3 Cons.prems(1) by (simp add: heap_extends_def)
    have s2: "cells h3 a2 = cells h newState"
      using p1 p2 p3 Cons.prems(2) by (simp add: heap_extends_def)
    have s3: "cells h3 a3 = cells h patch"
      using p1 p2 p3 Cons.prems(3) by (simp add: heap_extends_def)
    define effect where "effect = hook (cells h prevState) (cells h newState) (cells h patch)"
    define h4 where "h4 = h3\<lparr>cells := (cells h3)(a1 := prevLeft effect, a2 := newLeft effect,
                                            a3 := appliedLeft effect)\<rparr>"
    define call where "call = AfterCall (name mw) a1 a2 a3 (cells h prevState) (cells h newState) (cells h patch)"
    have e04: "heap_extends h h4"
      unfolding h4_def using e03 p1 p2 p3 by (intro overwrite3_fresh_extends) simp_all
    have u4: "used h4 = Suc (Suc (Suc (used h)))"
      using p1 p2 p3 by (simp add: h4_def)
    have st4: "prevState < used h4" "newState < used h4" "patch < used h4"
      using Cons.prems(1,2,3) u4 by simp_all
    have c4: "cells h4 prevState = cells h prevState" "cells h4 newState = cells h newState"
      "cells h4 patch = cells h patch"
      using e04 Cons.prems(1,2,3) by (simp_all add: heap_extends_cell)
    obtain calls' h5 where rec: "runAfterPatch rest prevState newState patch h4 = (calls', h5)"
      by (cases "runAfterPatch rest prevState newState patch h4")
    have res: "calls = call # calls'" "h' = h5"
      using Cons.prems(4) Some c1 c2 c3 s1 s2 s3 rec
      by (simp_all add: effect_def h4_def call_def Let_def)
    note ih = Cons.IH [OF st4 rec]
    have e05: "heap_extends h h5"
      using e04 ih by (blast intro: heap_extends_trans)
    have a: "a1 = used h" "a2 = Suc (used h)" "a3 = Suc (Suc (used h))"
      using p1 p2 p3 by simp_all
    have u5: "used h4 \<le> used h5"
      using ih by (simp add: heap_extends_def)
    let ?later = "concat (map afterArguments calls')"
    from ih have "\<forall>x \<in> set ?later. used h4 \<le> x \<and> x < used h5"
      by blast
    then have fr: "\<And>x. x \<in> set ?later \<Longrightarrow> Suc (Suc (Suc (used h))) \<le> x \<and> x < used h5"
      unfolding u4 by blast
    have n1: "a1 \<notin> set ?later" using fr [of a1] a by auto
    have n2: "a2 \<notin> set ?later" using fr [of a2] a by auto
    have n3: "a3 \<notin> set ?later" using fr [of a3] a by auto
    have d: "distinct (concat (map afterArguments calls))"
      using res ih n1 n2 n3 a by (simp add: call_def)
    have f: "\<forall>x \<in> set (concat (map afterArguments calls)). used h \<le> x \<and> x < used h'"
    proof
      fix x assume "x \<in> set (concat (map afterArguments calls))"
      then have "x = a1 \<or> x = a2 \<or> x = a3 \<or> x \<in> set ?later"
        using res by (auto simp: call_def)
      then consider "x = a1 \<or> x = a2 \<or> x = a3" | "x \<in> set ?later"
        by blast
      then show "used h \<le> x \<and> x < used h'"
      proof cases
        case 1
        then show ?thesis using a u4 u5 res by auto
      next
        case 2
        from fr [OF 2] res show ?thesis by simp
      qed
    qed
    have m: "map afterCallOf calls
           = map (\<lambda>mw. Some (name mw, cells h prevState, cells h newState, cells h patch))
               (withAfter (mw # rest))"
      using res ih Some c4 by (simp add: call_def withAfter_def)
    from e05 res m d f show ?thesis
      by simp
  qed
qed

lemma runBeforePatch_withoutAfter:
  "runBeforePatch (map withoutAfter middleware) state currentPatch h
     = runBeforePatch middleware state currentPatch h"
proof (induction middleware arbitrary: currentPatch h)
  case Nil
  show ?case by simp
next
  case (Cons mw rest)
  show ?case
    by (cases "beforePatch mw")
       (simp_all add: withoutAfter_def Cons.IH [unfolded withoutAfter_def] Let_def
          split: prod.splits before_result.splits)
qed

lemma runAfterPatch_withoutAfter:
  "runAfterPatch (map withoutAfter middleware) prevState newState patch h = ([], h)"
  by (induction middleware) (simp_all add: withoutAfter_def)

lemma after_phase:
  assumes "prevState < used h3" and "current c1 < used h3"
    and "core_get c1 h3 = (nowState, h4)"
    and "patch < used h4"
    and "runAfterPatch middleware prevState nowState patch h4 = (calls, h5)"
  shows "stored c1 h5 = stored c1 h3
       \<and> stored c1 h4 = stored c1 h3
       \<and> map afterCallOf calls
           = map (\<lambda>mw. Some (name mw, cells h3 prevState, stored c1 h3, cells h4 patch))
               (withAfter middleware)
       \<and> distinct (concat (map afterArguments calls))
       \<and> (\<forall>a \<in> set (concat (map afterArguments calls)). used h3 < a)"
proof -
  note g = core_get_props [OF assms(3)]
  have p4: "prevState < used h4" "nowState < used h4"
    using assms(1) g by simp_all
  note r = runAfterPatch_calls [OF p4(1) p4(2) assms(4) assms(5)]
  have e35: "heap_extends h3 h5"
    using g(4) r by (blast intro: heap_extends_trans)
  have 1: "stored c1 h5 = stored c1 h3"
    using e35 assms(2) by (simp add: stored_def heap_extends_cell)
  have 2: "stored c1 h4 = stored c1 h3"
    using g(4) assms(2) by (simp add: stored_def heap_extends_cell)
  have 3: "cells h4 prevState = cells h3 prevState"
    using g(4) assms(1) by (simp add: heap_extends_cell)
  from r have "\<forall>a \<in> set (concat (map afterArguments calls)). used h4 \<le> a"
    by blast
  then have 4: "\<forall>a \<in> set (concat (map afterArguments calls)). used h3 < a"
    by (rule ball_above) (simp add: g(2))
  from r 1 2 3 4 g(3) show ?thesis
    by simp
qed

lemma mw_patch_structure:
  assumes "current c < used h" and "partial < used h"
    and "mw_patch middleware partial c h = (calls, c', h')"
  shows "\<exists>before final after h0.
           calls = before @ [CorePatch final] @ after
         \<and> sequentiallyChained (cells h partial) before final
         \<and> map beforeCallOf before = map (\<lambda>mw. Some (name mw, stored c h)) (withBefore middleware)
         \<and> stored c' h' = spread (stored c h) final
         \<and> map afterCallOf after
             = map (\<lambda>mw. Some (name mw, stored c h, stored c' h', final)) (withAfter middleware)
         \<and> distinct (concat (map afterArguments after))
         \<and> (\<forall>a \<in> set (concat (map afterArguments after)). current c' < a)
         \<and> mw_patch (map withoutAfter middleware) partial c h = (before @ [CorePatch final], c', h0)
         \<and> stored c' h0 = stored c' h'"
proof -
  obtain prevState h1 where g: "core_get c h = (prevState, h1)"
    by (cases "core_get c h")
  obtain before finalPatch h2 where b: "runBeforePatch middleware prevState partial h1 = (before, finalPatch, h2)"
    by (cases "runBeforePatch middleware prevState partial h1") auto
  obtain c1 h3 where p: "core_patch finalPatch c h2 = (c1, h3)"
    by (cases "core_patch finalPatch c h2")
  obtain nowState h4 where n: "core_get c1 h3 = (nowState, h4)"
    by (cases "core_get c1 h3")
  obtain after h5 where a: "runAfterPatch middleware prevState nowState finalPatch h4 = (after, h5)"
    by (cases "runAfterPatch middleware prevState nowState finalPatch h4")
  note gp = core_get_props [OF g]
  have i1: "prevState < used h1" "partial < used h1" "current c < used h1"
    using gp assms(1,2) by simp_all
  note bp = runBeforePatch_chain [OF i1(1) i1(2) b]
  have e02: "heap_extends h h2"
    using gp(4) bp by (blast intro: heap_extends_trans)
  have s2: "stored c h2 = stored c h"
    using e02 assms(1) by (simp add: stored_def heap_extends_cell)
  have cp: "cells h1 partial = cells h partial"
    using gp(4) assms(2) by (simp add: heap_extends_cell)
  note pp = core_patch_props [OF p]
  have i3: "prevState < used h3" "current c1 < used h3" "finalPatch < used h3"
    using i1(1) bp pp by (auto simp: heap_extends_def)
  note np = core_get_props [OF n]
  have f4: "finalPatch < used h4"
    using i3(3) np by simp
  note ap = after_phase [OF i3(1) i3(2) n f4 a]
  have pv: "cells h3 prevState = stored c h"
    using gp(3) bp pp(4) i1(1) by (auto simp: heap_extends_def)
  have fv: "cells h4 finalPatch = cells h2 finalPatch"
    using bp pp(4) np(4) by (auto simp: heap_extends_def)
  have res: "calls = before @ [CorePatch (cells h2 finalPatch)] @ after" "c' = c1" "h' = h5"
    using assms(3) g b p n a by (simp_all add: mw_patch_def)
  have stripped: "mw_patch (map withoutAfter middleware) partial c h
                    = (before @ [CorePatch (cells h2 finalPatch)], c1, h4)"
    using g b p n
    by (simp add: mw_patch_def runBeforePatch_withoutAfter runAfterPatch_withoutAfter)
  have st: "stored c1 h3 = spread (stored c h) (cells h2 finalPatch)"
    using pp(3) s2 by simp
  from ap have "\<forall>a \<in> set (concat (map afterArguments after)). used h3 < a"
    by blast
  then have fresh: "\<forall>a \<in> set (concat (map afterArguments after)). current c1 < a"
    by (rule ball_above') (rule i3(2))
  show ?thesis
    using res stripped bp cp gp(3) ap pv fv st fresh
    by (intro exI [of _ before] exI [of _ "cells h2 finalPatch"] exI [of _ after] exI [of _ h4])
       simp
qed

lemma mw_set_structure:
  assumes "current c < used h" and "newState < used h"
    and "mw_set middleware newState c h = (calls, c', h')"
  shows "\<exists>before final after h0.
           calls = before @ [CoreSet final] @ after
         \<and> sequentiallyChained (cells h newState) before final
         \<and> map beforeCallOf before = map (\<lambda>mw. Some (name mw, stored c h)) (withBefore middleware)
         \<and> stored c' h' = final
         \<and> map afterCallOf after
             = map (\<lambda>mw. Some (name mw, stored c h, stored c' h', final)) (withAfter middleware)
         \<and> distinct (concat (map afterArguments after))
         \<and> (\<forall>a \<in> set (concat (map afterArguments after)). current c' < a)
         \<and> mw_set (map withoutAfter middleware) newState c h = (before @ [CoreSet final], c', h0)
         \<and> stored c' h0 = stored c' h'"
proof -
  obtain prevState h1 where g: "core_get c h = (prevState, h1)"
    by (cases "core_get c h")
  obtain before finalState h2 where b: "runBeforePatch middleware prevState newState h1 = (before, finalState, h2)"
    by (cases "runBeforePatch middleware prevState newState h1") auto
  obtain c1 h3 where p: "core_set finalState c h2 = (c1, h3)"
    by (cases "core_set finalState c h2")
  obtain nowState h4 where n: "core_get c1 h3 = (nowState, h4)"
    by (cases "core_get c1 h3")
  obtain after h5 where a: "runAfterPatch middleware prevState nowState finalState h4 = (after, h5)"
    by (cases "runAfterPatch middleware prevState nowState finalState h4")
  note gp = core_get_props [OF g]
  have i1: "prevState < used h1" "newState < used h1"
    using gp assms(1,2) by simp_all
  note bp = runBeforePatch_chain [OF i1(1) i1(2) b]
  have cp: "cells h1 newState = cells h newState"
    using gp(4) assms(2) by (simp add: heap_extends_cell)
  note pp = core_set_props [OF p]
  have i3: "prevState < used h3" "current c1 < used h3" "finalState < used h3"
    using i1(1) bp pp by (auto simp: heap_extends_def)
  note np = core_get_props [OF n]
  have f4: "finalState < used h4"
    using i3(3) np by simp
  note ap = after_phase [OF i3(1) i3(2) n f4 a]
  have pv: "cells h3 prevState = stored c h"
    using gp(3) bp pp(4) i1(1) by (auto simp: heap_extends_def)
  have fv: "cells h4 finalState = cells h2 finalState"
    using bp pp(4) np(4) by (auto simp: heap_extends_def)
  have res: "calls = before @ [CoreSet (cells h2 finalState)] @ after" "c' = c1" "h' = h5"
    using assms(3) g b p n a by (simp_all add: mw_set_def)
  have stripped: "mw_set (map withoutAfter middleware) newState c h
                    = (before @ [CoreSet (cells h2 finalState)], c1, h4)"
    using g b p n
    by (simp add: mw_set_def runBeforePatch_withoutAfter runAfterPatch_withoutAfter)
  from ap have "\<forall>a \<in> set (concat (map afterArguments after)). used h3 < a"
    by blast
  then have fresh: "\<forall>a \<in> set (concat (map afterArguments after)). current c1 < a"
    by (rule ball_above') (rule i3(2))
  show ?thesis
    using res stripped bp cp gp(3) ap pv fv pp(3) fresh
    by (intro exI [of _ before] exI [of _ "cells h2 finalState"] exI [of _ after] exI [of _ h4])
       simp
qed

lemma mw_update_structure:
  assumes "current c < used h"
    and "mw_update middleware updater c h = (calls, c', h')"
  shows "\<exists>before final after h0.
           calls = before @ [CoreSet final] @ after
         \<and> sequentiallyChained (updater (stored c h)) before final
         \<and> map beforeCallOf before = map (\<lambda>mw. Some (name mw, stored c h)) (withBefore middleware)
         \<and> stored c' h' = final
         \<and> map afterCallOf after
             = map (\<lambda>mw. Some (name mw, stored c h, stored c' h', final)) (withAfter middleware)
         \<and> distinct (concat (map afterArguments after))
         \<and> (\<forall>a \<in> set (concat (map afterArguments after)). current c' < a)
         \<and> mw_update (map withoutAfter middleware) updater c h = (before @ [CoreSet final], c', h0)
         \<and> stored c' h0 = stored c' h'"
proof -
  obtain prevState h1 where g: "core_get c h = (prevState, h1)"
    by (cases "core_get c h")
  obtain copy ha where k: "deepCloneRef prevState h1 = (copy, ha)"
    by (cases "deepCloneRef prevState h1")
  obtain updatedState hb where u: "alloc (updater (cells ha copy)) ha = (updatedState, hb)"
    by (cases "alloc (updater (cells ha copy)) ha")
  obtain before finalState h2 where b: "runBeforePatch middleware prevState updatedState hb = (before, finalState, h2)"
    by (cases "runBeforePatch middleware prevState updatedState hb") auto
  obtain c1 h3 where p: "core_set finalState c h2 = (c1, h3)"
    by (cases "core_set finalState c h2")
  obtain nowState h4 where n: "core_get c1 h3 = (nowState, h4)"
    by (cases "core_get c1 h3")
  obtain after h5 where a: "runAfterPatch middleware prevState nowState finalState h4 = (after, h5)"
    by (cases "runAfterPatch middleware prevState nowState finalState h4")
  note gp = core_get_props [OF g]
  note kp = deepCloneRef_extends [OF k]
  note up = alloc_extends [OF u]
  have cc: "cells ha copy = stored c h"
    using kp(3) gp(3) by simp
  have i1: "prevState < used hb" "updatedState < used hb"
    using gp kp up by simp_all
  have pb: "cells hb prevState = stored c h"
    using gp kp up by (auto simp: heap_extends_def)
  have ub: "cells hb updatedState = updater (stored c h)"
    using up(3) cc by simp
  note bp = runBeforePatch_chain [OF i1(1) i1(2) b]
  note pp = core_set_props [OF p]
  have i3: "prevState < used h3" "current c1 < used h3" "finalState < used h3"
    using i1(1) bp pp by (auto simp: heap_extends_def)
  note np = core_get_props [OF n]
  have f4: "finalState < used h4"
    using i3(3) np by simp
  note ap = after_phase [OF i3(1) i3(2) n f4 a]
  have pv: "cells h3 prevState = stored c h"
    using pb bp pp(4) i1(1) by (auto simp: heap_extends_def)
  have fv: "cells h4 finalState = cells h2 finalState"
    using bp pp(4) np(4) by (auto simp: heap_extends_def)
  have res: "calls = before @ [CoreSet (cells h2 finalState)] @ after" "c' = c1" "h' = h5"
    using assms(2) g k u b p n a by (simp_all add: mw_update_def)
  have stripped: "mw_update (map withoutAfter middleware) updater c h
                    = (before @ [CoreSet (cells h2 finalState)], c1, h4)"
    using g k u b p n
    by (simp add: mw_update_def runBeforePatch_withoutAfter runAfterPatch_withoutAfter)
  from ap have "\<forall>a \<in> set (concat (map afterArguments after)). used h3 < a"
    by blast
  then have fresh: "\<forall>a \<in> set (concat (map afterArguments after)). current c1 < a"
    by (rule ball_above') (rule i3(2))
  show ?thesis
    using res stripped bp pb ub ap pv fv pp(3) fresh
    by (intro exI [of _ before] exI [of _ "cells h2 finalState"] exI [of _ after] exI [of _ h4])
       simp
qed

lemma mw_reset_structure:
  assumes "current c < used h" and "initial c < used h"
    and "mw_reset middleware c h = (calls, c', h')"
  shows "\<exists>after h0.
           calls = [CoreReset (cells h (initial c))] @ after
         \<and> stored c' h' = cells h (initial c)
         \<and> map afterCallOf after
             = map (\<lambda>mw. Some (name mw, stored c h, stored c' h', stored c' h')) (withAfter middleware)
         \<and> distinct (concat (map afterArguments after))
         \<and> (\<forall>a \<in> set (concat (map afterArguments after)). current c' < a)
         \<and> mw_reset (map withoutAfter middleware) c h = ([CoreReset (cells h (initial c))], c', h0)
         \<and> stored c' h0 = stored c' h'"
proof -
  obtain prevState h1 where g: "core_get c h = (prevState, h1)"
    by (cases "core_get c h")
  obtain c1 h3 where p: "core_reset c h1 = (c1, h3)"
    by (cases "core_reset c h1")
  obtain nowState h4 where n: "core_get c1 h3 = (nowState, h4)"
    by (cases "core_get c1 h3")
  obtain after h5 where a: "runAfterPatch middleware prevState nowState nowState h4 = (after, h5)"
    by (cases "runAfterPatch middleware prevState nowState nowState h4")
  note gp = core_get_props [OF g]
  note pp = core_reset_props [OF p]
  have i3: "prevState < used h3" "current c1 < used h3"
    using gp pp by simp_all
  note np = core_get_props [OF n]
  have f4: "nowState < used h4"
    using np by simp
  note ap = after_phase [OF i3(1) i3(2) n f4 a]
  have pv: "cells h3 prevState = stored c h"
    using gp pp(4) by (auto simp: heap_extends_def)
  have iv: "cells h1 (initial c) = cells h (initial c)"
    using gp(4) assms(2) by (simp add: heap_extends_cell)
  have cv: "cells h3 (current c1) = cells h (initial c)"
    using pp(3) iv by (simp add: stored_def)
  have res: "calls = CoreReset (cells h3 (current c1)) # after" "c' = c1" "h' = h5"
    using assms(3) g p n a by (auto simp: mw_reset_def)
  have stripped: "mw_reset (map withoutAfter middleware) c h
                    = ([CoreReset (cells h3 (current c1))], c1, h4)"
    using g p n
    by (simp add: mw_reset_def runAfterPatch_withoutAfter)
  from ap have "\<forall>a \<in> set (concat (map afterArguments after)). used h3 < a"
    by blast
  then have fresh: "\<forall>a \<in> set (concat (map afterArguments after)). current c1 < a"
    by (rule ball_above') (rule i3(2))
  show ?thesis
    using res stripped ap pv pp(3) iv cv np(3) fresh
    by (intro exI [of _ after] exI [of _ h4]) simp
qed

lemma startStore_eval:
  "startStore = (\<lparr> current = 2, initial = 3 \<rparr>,
                 \<lparr> cells = (\<lambda>a. [])(0 := initialState, 1 := [(''count'', JNum 5)],
                                      2 := initialState, 3 := initialState), used = 4 \<rparr>)"
  by (simp add: startStore_def createGameStore_def deepCloneRef_def alloc_def startHeap_def)

lemma startStore_allocated:
  "current (fst startStore) < used (snd startStore)"
  "initial (fst startStore) < used (snd startStore)"
  "(1::nat) < used (snd startStore)"
  by (simp_all add: startStore_eval)

lemma chainedPatch_count:
  "map_of (stored (fst (snd chainedPatch)) (snd (snd chainedPatch))) ''count'' = Some (JNum 11)"
  by (simp add: chainedPatch_def startStore_eval mw_patch_def core_get_def core_patch_def
      deepCloneRef_def alloc_def doubling_def addingOne_def stored_def spread_def assign_def arrayIndex_def digits_def
      initialState_def Let_def)

text \<open>
  C1. A \<open>patch\<close> through any pipeline first calls the pre-write hooks in pipeline order,
  each with the state before the write, then the core's native \<open>patch\<close>, then the post-write
  hooks in the same order. The pre-write calls are sequentially chained from the given patch:
  each hook receives what the previous one returned, a hook that returns nothing (or throws)
  leaves the patch as it was, and what is left after the last hook is merged into the stored
  state. Patching \<open>{count: 5}\<close> through a doubling hook followed by one that adds one
  stores count 11.
\<close>

theorem middleware_patch_order_and_chaining:
  assumes "current c < used h" and "partial < used h"
    and "mw_patch middleware partial c h = (calls, c', h')"
  shows "(\<exists>before final after.
            calls = before @ [CorePatch final] @ after
          \<and> map beforeCallOf before = map (\<lambda>mw. Some (name mw, stored c h)) (withBefore middleware)
          \<and> sequentiallyChained (cells h partial) before final
          \<and> stored c' h' = spread (stored c h) final
          \<and> map afterCallOf after
              = map (\<lambda>mw. Some (name mw, stored c h, stored c' h', final)) (withAfter middleware))
       \<and> map_of (stored (fst (snd chainedPatch)) (snd (snd chainedPatch))) ''count'' = Some (JNum 11)"
proof -
  from mw_patch_structure [OF assms] obtain before final after where
    "calls = before @ [CorePatch final] @ after"
    "map beforeCallOf before = map (\<lambda>mw. Some (name mw, stored c h)) (withBefore middleware)"
    "sequentiallyChained (cells h partial) before final"
    "stored c' h' = spread (stored c h) final"
    "map afterCallOf after
       = map (\<lambda>mw. Some (name mw, stored c h, stored c' h', final)) (withAfter middleware)"
    by blast
  with chainedPatch_count show ?thesis
    by blast
qed

text \<open>The doubling hook followed by the hook that adds one, on the patch \<open>{count: 5}\<close>.\<close>

theorem middleware_patch_order_and_chaining_witness:
  "current (fst startStore) < used (snd startStore) \<and> (1::nat) < used (snd startStore)
   \<and> (\<exists>before final after.
          fst chainedPatch = before @ [CorePatch final] @ after
        \<and> map beforeCallOf before = [Some (''double'', initialState), Some (''addOne'', initialState)]
        \<and> sequentiallyChained [(''count'', JNum 5)] before final
        \<and> stored (fst (snd chainedPatch)) (snd (snd chainedPatch)) = spread initialState final)"
proof -
  have m: "mw_patch [doubling, addingOne] 1 (fst startStore) (snd startStore)
             = (fst chainedPatch, fst (snd chainedPatch), snd (snd chainedPatch))"
    by (simp add: chainedPatch_def)
  have s: "stored (fst startStore) (snd startStore) = initialState"
    by (simp add: startStore_eval stored_def)
  have p: "cells (snd startStore) (Suc 0) = [(''count'', JNum 5)]"
    by (simp add: startStore_eval)
  have w: "withBefore [doubling, addingOne] = [doubling, addingOne]"
    by (simp add: withBefore_def doubling_def addingOne_def)
  have n: "name doubling = ''double''" "name addingOne = ''addOne''"
    by (simp_all add: doubling_def addingOne_def)
  from middleware_patch_order_and_chaining [OF startStore_allocated(1) startStore_allocated(3) m]
  obtain before final after where
    "fst chainedPatch = before @ [CorePatch final] @ after"
    "map beforeCallOf before
       = map (\<lambda>mw. Some (name mw, stored (fst startStore) (snd startStore)))
           (withBefore [doubling, addingOne])"
    "sequentiallyChained (cells (snd startStore) 1) before final"
    "stored (fst (snd chainedPatch)) (snd (snd chainedPatch))
       = spread (stored (fst startStore) (snd startStore)) final"
    by blast
  then have "fst chainedPatch = before @ [CorePatch final] @ after
        \<and> map beforeCallOf before = [Some (''double'', initialState), Some (''addOne'', initialState)]
        \<and> sequentiallyChained [(''count'', JNum 5)] before final
        \<and> stored (fst (snd chainedPatch)) (snd (snd chainedPatch)) = spread initialState final"
    by (simp add: s p w n)
  then have "\<exists>before final after.
          fst chainedPatch = before @ [CorePatch final] @ after
        \<and> map beforeCallOf before = [Some (''double'', initialState), Some (''addOne'', initialState)]
        \<and> sequentiallyChained [(''count'', JNum 5)] before final
        \<and> stored (fst (snd chainedPatch)) (snd (snd chainedPatch)) = spread initialState final"
    by (intro exI)
  with startStore_allocated(1) startStore_allocated(3) show ?thesis
    by (intro conjI)
qed





text \<open>
  C6. For each of the four writes of a middleware store: every post-write hook receives the
  state before the write, the state after it and the applied patch, in objects allocated for
  that call alone, distinct from each other, from those of every other hook call and from
  the store's own state object, so what an earlier hook did to its arguments is not seen by
  a later one. The write leaves the same store and the same stored state as the same write
  through the pipeline with all post-write hooks removed: neither what a hook does to its
  arguments nor what it returns or throws reaches the stored state.
\<close>

theorem after_hooks_cannot_affect_state:
  assumes "current c < used h" and "initial c < used h" and "write_allocated wr h"
    and "mw_write middleware wr c h = (calls, c', h')"
  shows "\<exists>before core applied after h0.
           calls = before @ [core] @ after
         \<and> coreArgument core = Some applied
         \<and> map afterCallOf after
             = map (\<lambda>mw. Some (name mw, stored c h, stored c' h', applied)) (withAfter middleware)
         \<and> distinct (concat (map afterArguments after))
         \<and> (\<forall>a \<in> set (concat (map afterArguments after)). current c' < a)
         \<and> mw_write (map withoutAfter middleware) wr c h = (before @ [core], c', h0)
         \<and> stored c' h0 = stored c' h'"
proof (cases wr)
  case (WriteSet newState)
  with assms(3,4) have "newState < used h" and "mw_set middleware newState c h = (calls, c', h')"
    by (simp_all add: write_allocated_def mw_write_def)
  from mw_set_structure [OF assms(1) this] obtain before final after h0 where
    "calls = before @ [CoreSet final] @ after"
    "map afterCallOf after
       = map (\<lambda>mw. Some (name mw, stored c h, stored c' h', final)) (withAfter middleware)"
    "distinct (concat (map afterArguments after))"
    "\<forall>a \<in> set (concat (map afterArguments after)). current c' < a"
    "mw_set (map withoutAfter middleware) newState c h = (before @ [CoreSet final], c', h0)"
    "stored c' h0 = stored c' h'"
    by blast
  then show ?thesis
    using WriteSet
    by (intro exI [of _ before] exI [of _ "CoreSet final"] exI [of _ final] exI [of _ after]
        exI [of _ h0]) (simp add: mw_write_def)
next
  case (WriteUpdate updater)
  with assms(4) have "mw_update middleware updater c h = (calls, c', h')"
    by (simp add: mw_write_def)
  from mw_update_structure [OF assms(1) this] obtain before final after h0 where
    "calls = before @ [CoreSet final] @ after"
    "map afterCallOf after
       = map (\<lambda>mw. Some (name mw, stored c h, stored c' h', final)) (withAfter middleware)"
    "distinct (concat (map afterArguments after))"
    "\<forall>a \<in> set (concat (map afterArguments after)). current c' < a"
    "mw_update (map withoutAfter middleware) updater c h = (before @ [CoreSet final], c', h0)"
    "stored c' h0 = stored c' h'"
    by blast
  then show ?thesis
    using WriteUpdate
    by (intro exI [of _ before] exI [of _ "CoreSet final"] exI [of _ final] exI [of _ after]
        exI [of _ h0]) (simp add: mw_write_def)
next
  case (WritePatch partial)
  with assms(3,4) have "partial < used h" and "mw_patch middleware partial c h = (calls, c', h')"
    by (simp_all add: write_allocated_def mw_write_def)
  from mw_patch_structure [OF assms(1) this] obtain before final after h0 where
    "calls = before @ [CorePatch final] @ after"
    "map afterCallOf after
       = map (\<lambda>mw. Some (name mw, stored c h, stored c' h', final)) (withAfter middleware)"
    "distinct (concat (map afterArguments after))"
    "\<forall>a \<in> set (concat (map afterArguments after)). current c' < a"
    "mw_patch (map withoutAfter middleware) partial c h = (before @ [CorePatch final], c', h0)"
    "stored c' h0 = stored c' h'"
    by blast
  then show ?thesis
    using WritePatch
    by (intro exI [of _ before] exI [of _ "CorePatch final"] exI [of _ final] exI [of _ after]
        exI [of _ h0]) (simp add: mw_write_def)
next
  case WriteReset
  with assms(4) have "mw_reset middleware c h = (calls, c', h')"
    by (simp add: mw_write_def)
  from mw_reset_structure [OF assms(1,2) this] obtain after h0 where
    "calls = [CoreReset (cells h (initial c))] @ after"
    "stored c' h' = cells h (initial c)"
    "map afterCallOf after
       = map (\<lambda>mw. Some (name mw, stored c h, stored c' h', stored c' h')) (withAfter middleware)"
    "distinct (concat (map afterArguments after))"
    "\<forall>a \<in> set (concat (map afterArguments after)). current c' < a"
    "mw_reset (map withoutAfter middleware) c h = ([CoreReset (cells h (initial c))], c', h0)"
    "stored c' h0 = stored c' h'"
    by blast
  then show ?thesis
    using WriteReset
    by (intro exI [of _ "[]"] exI [of _ "CoreReset (cells h (initial c))"]
        exI [of _ "stored c' h'"] exI [of _ after] exI [of _ h0]) (simp add: mw_write_def)
qed

lemma untamperedPatch_stored:
  "stored (fst (snd untamperedPatch)) (snd (snd untamperedPatch))
     = [(''count'', JNum 5), (''name'', JStr ''test''), (''items'', JArr [])]"
  by (simp add: untamperedPatch_def mw_write_def withoutAfter_def startStore_eval mw_patch_def
      core_get_def core_patch_def deepCloneRef_def alloc_def tampering_def stored_def spread_def assign_def arrayIndex_def digits_def
      initialState_def Let_def)

text \<open>
  Two hooks that overwrite all their arguments with count 999: the stored count is 5.
\<close>

theorem after_hooks_cannot_affect_state_witness:
  "current (fst startStore) < used (snd startStore)
   \<and> initial (fst startStore) < used (snd startStore)
   \<and> write_allocated (WritePatch 1) (snd startStore)
   \<and> stored (fst (snd tamperedPatch)) (snd (snd tamperedPatch))
       = [(''count'', JNum 5), (''name'', JStr ''test''), (''items'', JArr [])]"
proof -
  have a: "write_allocated (WritePatch 1) (snd startStore)"
    using startStore_allocated(3) by (simp add: write_allocated_def)
  have m: "mw_write [tampering, tampering] (WritePatch 1) (fst startStore) (snd startStore)
             = (fst tamperedPatch, fst (snd tamperedPatch), snd (snd tamperedPatch))"
    by (simp add: tamperedPatch_def)
  from after_hooks_cannot_affect_state [OF startStore_allocated(1) startStore_allocated(2) a m]
  obtain before core h0 where
    w: "mw_write (map withoutAfter [tampering, tampering]) (WritePatch 1)
              (fst startStore) (snd startStore) = (before @ [core], fst (snd tamperedPatch), h0)"
    and s: "stored (fst (snd tamperedPatch)) h0
              = stored (fst (snd tamperedPatch)) (snd (snd tamperedPatch))"
    by blast
  from w have "fst (snd untamperedPatch) = fst (snd tamperedPatch)" "snd (snd untamperedPatch) = h0"
    by (simp_all add: untamperedPatch_def)
  with untamperedPatch_stored s
  have "stored (fst (snd tamperedPatch)) (snd (snd tamperedPatch))
       = [(''count'', JNum 5), (''name'', JStr ''test''), (''items'', JArr [])]"
    by simp
  with startStore_allocated(1) startStore_allocated(2) a show ?thesis
    by (intro conjI)
qed

end
